theory Spec2Isabelle
  imports Complex_Main "HOL-Library.Sublist"
begin

section \<open>Iterative DNS resolver (custom\_resolver.py): data model\<close>

text \<open>
  Python strings are \<^typ>\<open>string\<close>; an IPv4 address is the dotted-quad string that the
  packet library hands out. Readings of \<^verbatim>\<open>time.time()\<close> are real numbers of seconds,
  the idealisation of Python's floats. A value is "truthy" in Python when it is neither
  \<^verbatim>\<open>None\<close> nor empty.
\<close>

definition ROOT_SERVER_IP :: string where
  "ROOT_SERVER_IP = ''198.41.0.4''"

definition CACHE_TTL_SECONDS :: real where
  "CACHE_TTL_SECONDS = 3600"

text \<open>
  A resource record, as the packet library decodes it: the record type fixes the kind of
  \<^verbatim>\<open>rdata\<close>. Type 1 (A) carries an address string. Type 2 (NS) carries a host name as
  bytes; \<^verbatim>\<open>rdata.decode()\<close> either yields a string or raises (here \<open>None\<close>). Every other
  type code is carried with its number and plays no role in the resolver.
\<close>

datatype rr =
    A_RR (rrname: string) (address: string)
  | NS_RR (rrname: string) (target: "string option")
  | Other_RR (rrname: string) (rtype: nat)

record dnsqr =
  qname :: string

record dns =
  ident :: nat
  qr :: nat
  aa :: nat
  ra :: nat
  rd :: nat
  rcode :: nat
  qd :: "dnsqr list"
  an :: "rr list"
  ns :: "rr list"
  ar :: "rr list"

text \<open>The message the constructor \<^verbatim>\<open>DNS()\<close> builds when no field is given.\<close>

definition DNS :: dns where
  "DNS = \<lparr>ident = 0, qr = 0, aa = 0, ra = 0, rd = 1, rcode = 0,
          qd = [], an = [], ns = [], ar = []\<rparr>"

text \<open>What \<^verbatim>\<open>sr1(query, timeout=2)\<close> hands back: nothing, a packet without a DNS layer, or a
  packet with one.\<close>

datatype reply = NoReply | NotDNS | DnsReply dns

subsection \<open>DnsLog\<close>

record log_entry =
  timestamp :: real
  domain_name :: string
  resolution_mode :: string
  dns_server_ip :: string
  step_of_resolution :: string
  response_or_referral :: string
  round_trip_time :: real
  total_time_to_resolution :: "real option"
  cache_status :: string

record plot_datum =
  total_servers_visited :: nat
  total_latency :: real

text \<open>\<^verbatim>\<open>plot_data\<close> is a Python dict, which keeps its keys in insertion order: an association
  list that only ever grows at its end.\<close>

record DnsLog =
  log_entries :: "log_entry list"
  plot_data :: "(string \<times> plot_datum) list"
  unique_domains_resolved_count :: nat
  max_domains_for_plot :: nat

definition DnsLog_init :: DnsLog where
  "DnsLog_init = \<lparr>log_entries = [], plot_data = [],
                  unique_domains_resolved_count = 0, max_domains_for_plot = 10\<rparr>"

definition log_step ::
  "real \<Rightarrow> string \<Rightarrow> string \<Rightarrow> string \<Rightarrow> string \<Rightarrow> string \<Rightarrow> real \<Rightarrow> real option \<Rightarrow> string
     \<Rightarrow> DnsLog \<Rightarrow> DnsLog" where
  "log_step ts domain mode server_ip step response_referral rtt total_time status l =
     l\<lparr>log_entries := log_entries l @
        [\<lparr>timestamp = ts, domain_name = domain, resolution_mode = mode,
          dns_server_ip = server_ip, step_of_resolution = step,
          response_or_referral = response_referral, round_trip_time = rtt,
          total_time_to_resolution = total_time, cache_status = status\<rparr>]\<rparr>"

definition record_plot_data :: "string \<Rightarrow> nat \<Rightarrow> real \<Rightarrow> DnsLog \<Rightarrow> DnsLog" where
  "record_plot_data domain total_servers latency l =
     (if domain \<notin> fst ` set (plot_data l)
         \<and> unique_domains_resolved_count l < max_domains_for_plot l
      then l\<lparr>unique_domains_resolved_count := unique_domains_resolved_count l + 1,
             plot_data := plot_data l @
               [(domain, \<lparr>total_servers_visited = total_servers, total_latency = latency\<rparr>)]\<rparr>
      else l)"

subsection \<open>DnsCache\<close>

type_synonym DnsCache = "string \<rightharpoonup> (string \<times> real)"

definition DnsCache_get :: "DnsCache \<Rightarrow> string \<Rightarrow> real \<Rightarrow> (string option \<times> string) \<times> DnsCache" where
  "DnsCache_get c domain now =
     (case c domain of
        Some (ip, cached_time) \<Rightarrow>
          if now - cached_time < CACHE_TTL_SECONDS then ((Some ip, ''HIT''), c)
          else ((None, ''MISS''), c(domain := None))
      | None \<Rightarrow> ((None, ''MISS''), c))"

definition DnsCache_set :: "DnsCache \<Rightarrow> string \<Rightarrow> string \<Rightarrow> real \<Rightarrow> DnsCache" where
  "DnsCache_set c domain ip now = c(domain \<mapsto> (ip, now))"

subsection \<open>The process state\<close>

text \<open>
  The two module-level singletons, the clock, and the network. The network is the list of
  what the coming \<^verbatim>\<open>sr1\<close> calls will observe, each with the time the call takes; when the
  list is used up every further query times out after the 2 seconds. \<open>sent\<close> is the trace
  of the queries sent so far: destination address and queried name. The clock advances only
  while a query waits for its reply.
\<close>

record world =
  dns_log :: DnsLog
  dns_cache :: DnsCache
  clock :: real
  net :: "(real \<times> reply) list"
  sent :: "(string \<times> string) list"

definition sr1 :: "string \<Rightarrow> string \<Rightarrow> world \<Rightarrow> reply \<times> world" where
  "sr1 dst name w =
     (case net w of
        [] \<Rightarrow> (NoReply, w\<lparr>clock := clock w + 2, sent := sent w @ [(dst, name)]\<rparr>)
      | (d, r) # rest \<Rightarrow>
          (r, w\<lparr>clock := clock w + d, net := rest, sent := sent w @ [(dst, name)]\<rparr>))"

subsection \<open>Helpers of the resolution loop\<close>

definition isdigit :: "string \<Rightarrow> bool" where
  "isdigit s = (s \<noteq> [] \<and> list_all (\<lambda>c. c \<in> set ''0123456789'') s)"

definition last_field :: "string \<Rightarrow> string" where
  "last_field s = rev (takeWhile (\<lambda>c. c \<noteq> CHR ''.'') (rev s))"

definition get_step_type :: "string \<Rightarrow> string" where
  "get_step_type current_ip =
     (if current_ip = ROOT_SERVER_IP then ''Root''
      else if isdigit (last_field current_ip) then ''TLD/Authoritative''
      else ''Unknown'')"

fun join :: "string \<Rightarrow> string list \<Rightarrow> string" where
  "join sep [] = []"
| "join sep [x] = x"
| "join sep (x # y # ys) = x @ sep @ join sep (y # ys)"

text \<open>\<^verbatim>\<open>[rr.rdata for rr in dns_resp.an if rr.type == 1]\<close>\<close>

fun a_rdatas :: "rr list \<Rightarrow> string list" where
  "a_rdatas [] = []"
| "a_rdatas (A_RR n a # rs) = a # a_rdatas rs"
| "a_rdatas (r # rs) = a_rdatas rs"

text \<open>The names of the type-2 records whose \<^verbatim>\<open>rdata\<close> decodes; a record whose decoding
  raises is skipped.\<close>

fun ns_names_of :: "rr list \<Rightarrow> string list" where
  "ns_names_of [] = []"
| "ns_names_of (NS_RR n (Some t) # rs) = t # ns_names_of rs"
| "ns_names_of (r # rs) = ns_names_of rs"

text \<open>The first type-1 record of the additional section, whatever its owner name; the
  search stops there.\<close>

fun glue_ip_of :: "rr list \<Rightarrow> string option" where
  "glue_ip_of [] = None"
| "glue_ip_of (A_RR n a # rs) = Some a"
| "glue_ip_of (r # rs) = glue_ip_of rs"

definition truthy :: "string option \<Rightarrow> bool" where
  "truthy v = (case v of None \<Rightarrow> False | Some s \<Rightarrow> s \<noteq> [])"

text \<open>\<^verbatim>\<open>temp_ns_resp and temp_ns_resp.an and temp_ns_resp.an[0].type == 1\<close>, giving
  \<^verbatim>\<open>temp_ns_resp.an[0].rdata\<close>.\<close>

definition ns_ip_of :: "dns option \<Rightarrow> string option" where
  "ns_ip_of temp_ns_resp =
     (case temp_ns_resp of
        None \<Rightarrow> None
      | Some r \<Rightarrow> (case an r of A_RR n a # rs \<Rightarrow> Some a | _ \<Rightarrow> None))"

subsection \<open>resolve\_iteratively\<close>

text \<open>
  The packet returned on a cache hit: \<^verbatim>\<open>DNS(an=DNSRR(rrname=domain, type=1, rdata=ip))\<close>
  (the enclosing IP and UDP layers carry nothing the callers read).
\<close>

definition cached_packet :: "string \<Rightarrow> string \<Rightarrow> dns" where
  "cached_packet domain ip = DNS\<lparr>an := [A_RR domain ip]\<rparr>"

text \<open>\<^verbatim>\<open>dns_log.log_step(...)\<close> on the global logger.\<close>

definition add_log :: "real \<Rightarrow> string \<Rightarrow> string \<Rightarrow> string \<Rightarrow> string \<Rightarrow> string \<Rightarrow> real \<Rightarrow> real option \<Rightarrow> string \<Rightarrow> world \<Rightarrow> world" where
  "add_log ts domain mode server_ip step response_referral rtt total_time status w =
     w\<lparr>dns_log := log_step ts domain mode server_ip step response_referral rtt total_time status (dns_log w)\<rparr>"

text \<open>
  The hop loop \<^verbatim>\<open>for hop in range(max_depth)\<close> is \<open>hop_loop\<close>, counting the hops that are
  left; its \<open>0\<close> case is the code after the loop. The nested call for a name server
  without glue passes \<^verbatim>\<open>depth+1\<close> and no \<^verbatim>\<open>max_depth\<close>, so the callee runs with the
  default 10. The depth test comes first, before the cache is read.
\<close>

function resolve_iteratively :: "string \<Rightarrow> string option \<Rightarrow> nat \<Rightarrow> nat \<Rightarrow> world \<Rightarrow> dns option \<times> world"
  and hop_loop :: "string \<Rightarrow> string \<Rightarrow> nat \<Rightarrow> real \<Rightarrow> nat \<Rightarrow> string \<Rightarrow> nat \<Rightarrow> world \<Rightarrow> dns option \<times> world"
where
  "resolve_iteratively domain original_domain depth max_depth w =
     (if depth > max_depth then (None, w)
      else
        let original_domain' = (case original_domain of None \<Rightarrow> domain | Some d \<Rightarrow> d);
            total_start_time = clock w
        in case DnsCache_get (dns_cache w) domain (clock w) of
          ((ip_from_cache, status), c) \<Rightarrow>
           let w1 = w\<lparr>dns_cache := c\<rparr> in
           if truthy ip_from_cache then
             let total_latency = clock w1 - total_start_time;
                 w2 = add_log (clock w1) domain ''Iterative (Cached)'' ''N/A'' ''Cache''
                        (''Answer: '' @ the ip_from_cache) 0 (Some total_latency) status w1;
                 w3 = w2\<lparr>dns_log := record_plot_data domain 1 total_latency (dns_log w2)\<rparr>
             in (Some (cached_packet domain (the ip_from_cache)), w3)
           else hop_loop domain original_domain' depth total_start_time max_depth ROOT_SERVER_IP 0 w1)"
| "hop_loop domain original_domain depth total_start_time 0 current_ns_ip servers_visited w =
     (let total_latency = clock w - total_start_time
      in (None, add_log (clock w) domain ''Iterative (Failed)'' current_ns_ip
                 (get_step_type current_ns_ip) ''Iteration limit reached'' 0 (Some total_latency)
                 ''MISS'' w))"
| "hop_loop domain original_domain depth total_start_time (Suc hops) current_ns_ip servers_visited w =
     (let step_start_time = clock w in
      case sr1 current_ns_ip domain w of (resp, w1) \<Rightarrow>
      let rtt = clock w1 - step_start_time;
          ts = clock w1;
          servers_visited' = servers_visited + 1;
          step_type = get_step_type current_ns_ip
      in case resp of
           DnsReply dns_resp \<Rightarrow>
             (case a_rdatas (an dns_resp) of
                final_ip # _ \<Rightarrow>
                  let total_latency = clock w1 - total_start_time;
                      w2 = add_log ts domain ''Iterative (Resolved)'' current_ns_ip
                             ''Authoritative'' (''Answer: '' @ final_ip) rtt (Some total_latency)
                             ''MISS'' w1;
                      w3 = w2\<lparr>dns_cache := DnsCache_set (dns_cache w2) domain final_ip (clock w2)\<rparr>;
                      w4 = w3\<lparr>dns_log := record_plot_data domain servers_visited' total_latency (dns_log w3)\<rparr>
                  in (Some dns_resp, w4)
              | [] \<Rightarrow>
                  (case ns_names_of (ns dns_resp) of
                     [] \<Rightarrow>
                       (None, add_log ts domain ''Iterative (Failed delegation)''
                          current_ns_ip step_type ''No authority section for delegation'' rtt None
                          ''MISS'' w1)
                   | fallback_ns # other_ns \<Rightarrow>
                       let ns_names = fallback_ns # other_ns;
                           glue_ip = glue_ip_of (ar dns_resp)
                       in if truthy glue_ip then
                            hop_loop domain original_domain depth total_start_time hops
                                 (the glue_ip) servers_visited'
                               (add_log ts domain ''Iterative (Delegation)''
                                  current_ns_ip step_type
                                  (''Delegation to: '' @ join '', '' ns_names @ '' @ Glue IP: '' @ the glue_ip)
                                  rtt None ''MISS'' w1)
                          else if fallback_ns = original_domain then
                            (None, add_log ts domain ''Iterative (Failed delegation)''
                               current_ns_ip step_type ''No glue IP and NS same as original domain''
                               rtt None ''MISS'' w1)
                          else
                            (case resolve_iteratively fallback_ns (Some original_domain) (depth + 1) 10 w1 of
                               (temp_ns_resp, w2) \<Rightarrow>
                                 (case ns_ip_of temp_ns_resp of
                                    Some next_ip \<Rightarrow>
                                      hop_loop domain original_domain depth total_start_time hops
                                           next_ip servers_visited'
                                        (add_log ts domain ''Iterative (Delegation)''
                                            current_ns_ip step_type ''Timeout or invalid response''
                                            rtt None ''MISS'' w2)
                                  | None \<Rightarrow>
                                      (None, add_log ts domain ''Iterative (Failed delegation)''
                                         current_ns_ip step_type
                                         (''Failed to resolve next NS IP: '' @ fallback_ns)
                                         rtt None ''MISS'' w2)))))
         | _ \<Rightarrow>
             (None, add_log ts domain ''Iterative (Query Failed)'' current_ns_ip
                step_type ''Timeout or invalid response'' rtt None ''MISS'' w1))"
  by pat_completeness auto

termination
  apply (relation "measures
     [\<lambda>x. case x of Inl (d, od, depth, md, w) \<Rightarrow> (if depth > md then 0 else Suc (11 - depth))
                   | Inr (d, od, depth, t0, hops, ip, sv, w) \<Rightarrow> Suc (11 - depth),
      \<lambda>x. case x of Inl _ \<Rightarrow> 1 | Inr _ \<Rightarrow> 0,
      \<lambda>x. case x of Inl _ \<Rightarrow> 0 | Inr (d, od, depth, t0, hops, ip, sv, w) \<Rightarrow> hops]")
  apply auto
  done

declare resolve_iteratively.simps [simp del] hop_loop.simps [simp del]

subsection \<open>start\_dns\_server: one datagram\<close>

text \<open>\<^verbatim>\<open>s.rstrip('.')\<close>: every trailing dot goes, nothing else changes.\<close>

definition rstrip_dots :: "string \<Rightarrow> string" where
  "rstrip_dots s = rev (dropWhile (\<lambda>c. c = CHR ''.'') (rev s))"

text \<open>
  One turn of the server loop on a decoded datagram: the packet sent back, if any, and the
  new state. A datagram without a question is skipped. All calls of the server use the
  defaults \<^verbatim>\<open>original_domain=None, depth=0, max_depth=10\<close>.
\<close>

definition serve_datagram :: "dns \<Rightarrow> world \<Rightarrow> dns option \<times> world" where
  "serve_datagram dns_query w =
     (case qd dns_query of
        [] \<Rightarrow> (None, w)
      | q # _ \<Rightarrow>
          let domain = rstrip_dots (qname q) in
          case resolve_iteratively domain None 0 10 w of
            (dns_response, w1) \<Rightarrow>
              (case dns_response of
                 Some r \<Rightarrow>
                   if an r \<noteq> [] then
                     (Some (DNS\<lparr>ident := ident dns_query, qr := 1, aa := 1, ra := 0,
                                 qd := qd dns_query, an := an r\<rparr>), w1)
                   else
                     (Some (DNS\<lparr>ident := ident dns_query, qr := 1, rcode := 2,
                                 qd := qd dns_query\<rparr>), w1)
               | None \<Rightarrow>
                   (Some (DNS\<lparr>ident := ident dns_query, qr := 1, rcode := 2,
                               qd := qd dns_query\<rparr>), w1)))"

subsection \<open>A run of the logger\<close>

text \<open>The logger as it stands after the given calls of \<^verbatim>\<open>record_plot_data\<close>, in order, on the
  freshly constructed \<^verbatim>\<open>DnsLog\<close>.\<close>

definition record_all :: "(string \<times> nat \<times> real) list \<Rightarrow> DnsLog" where
  "record_all calls = foldl (\<lambda>l (d, n, t). record_plot_data d n t l) DnsLog_init calls"

subsection \<open>The process at start-up\<close>

text \<open>The module-level \<^verbatim>\<open>dns_log = DnsLog(LOG_FILE)\<close> and \<^verbatim>\<open>dns_cache = DnsCache()\<close>, at a given
  clock reading and with the given replies to come.\<close>

definition init_world :: "real \<Rightarrow> (real \<times> reply) list \<Rightarrow> world" where
  "init_world now replies =
     \<lparr>dns_log = DnsLog_init, dns_cache = Map.empty, clock = now, net = replies, sent = []\<rparr>"

text \<open>A response that makes the loop follow glue: no A record in the answer section, a
  decodable NS name in the authority section, and a first A record of the additional section
  with a non-empty address.\<close>

definition glue_referral :: "dns \<Rightarrow> bool" where
  "glue_referral resp =
     (a_rdatas (an resp) = [] \<and> ns_names_of (ns resp) \<noteq> [] \<and> truthy (glue_ip_of (ar resp)))"

text \<open>An upper bound for the number of queries that a call with the default bound 10 sends
  when \<open>n\<close> more levels of nested calls can still run their loops.\<close>

fun work :: "nat \<Rightarrow> nat" where
  "work 0 = 0"
| "work (Suc n) = 10 * (1 + work n)"

text \<open>The registry of plot data as the constructor and \<^verbatim>\<open>record_plot_data\<close> keep it: the
  cap is 10, the counter is the number of entries, and no domain is entered twice.\<close>

definition registry_ok :: "DnsLog \<Rightarrow> bool" where
  "registry_ok l =
     (max_domains_for_plot l = 10
      \<and> unique_domains_resolved_count l = length (plot_data l)
      \<and> length (plot_data l) \<le> 10
      \<and> distinct (map fst (plot_data l)))"

section \<open>Properties\<close>

subsection \<open>Induction over the resolver\<close>

text \<open>
  Induction over the calls of the resolver: a call beyond its depth bound returns at once;
  any other call runs the hop loop; a hop may call the resolver one level deeper, always with
  the default bound 10, and then goes on with one hop less.
\<close>

lemma resolve_hop_induct:
  assumes base: "\<And>d od depth md w. md < depth \<Longrightarrow> P d od depth md w"
    and res: "\<And>d od depth md w. depth \<le> md
        \<Longrightarrow> (\<And>o' t0 w1. Q d o' depth t0 md ROOT_SERVER_IP 0 w1)
        \<Longrightarrow> P d od depth md w"
    and loop0: "\<And>d o' depth t0 ip sv w. Q d o' depth t0 0 ip sv w"
    and loopS: "\<And>d o' depth t0 hops ip sv w.
        (\<And>name w1. P name (Some o') (depth + 1) 10 w1)
        \<Longrightarrow> (\<And>ip' sv' w1. Q d o' depth t0 hops ip' sv' w1)
        \<Longrightarrow> Q d o' depth t0 (Suc hops) ip sv w"
  shows "P d od depth md w" and "Q d o' depth t0 hops ip sv w"
proof -
  have loop: "Q d o' depth t0 hops ip sv w"
    if nested: "\<And>name o' w1. P name (Some o') (depth + 1) 10 w1"
    for d o' depth t0 hops ip sv w
  proof (induction hops arbitrary: ip sv w)
    case 0
    show ?case by (rule loop0)
  next
    case (Suc hops)
    show ?case by (rule loopS) (rule nested, rule Suc.IH)
  qed
  have ten: "11 - depth \<le> n \<Longrightarrow> P name od depth 10 w" for n depth name od w
  proof (induction n arbitrary: depth name od w)
    case 0
    then have "10 < depth" by simp
    then show ?case by (rule base)
  next
    case (Suc n)
    show ?case
    proof (cases "10 < depth")
      case True
      then show ?thesis by (rule base)
    next
      case False
      then have le: "depth \<le> 10" by simp
      from Suc.prems have "11 - (depth + 1) \<le> n" by simp
      then have nested: "\<And>name o' w1. P name (Some o') (depth + 1) 10 w1"
        by (rule Suc.IH)
      show ?thesis by (rule res [OF le]) (rule loop, rule nested)
    qed
  qed
  have ten': "\<And>name od depth w. P name od depth 10 w"
    by (rule ten) (rule order_refl)
  show "Q d o' depth t0 hops ip sv w" by (rule loop) (rule ten')
  show "P d od depth md w"
  proof (cases "md < depth")
    case True
    then show ?thesis by (rule base)
  next
    case False
    then have le: "depth \<le> md" by simp
    show ?thesis by (rule res [OF le]) (rule loop, rule ten')
  qed
qed

text \<open>Every response the resolver returns carries an A record in its answer section.\<close>

lemma resolve_answer_nonempty:
  "fst (resolve_iteratively d od depth md w) = Some r \<longrightarrow> a_rdatas (an r) \<noteq> []"
  "fst (hop_loop d o' depth t0 hops ip sv w) = Some r \<longrightarrow> a_rdatas (an r) \<noteq> []"
proof (induction d od depth md w and d o' depth t0 hops ip sv w rule: resolve_hop_induct)
  case (1 d od depth md w)
  then show ?case by (simp add: resolve_iteratively.simps)
next
  case (2 d od depth md w)
  then show ?case 
    by (auto simp: resolve_iteratively.simps Let_def cached_packet_def DNS_def split: prod.splits)
next
  case (3 d o' depth t0 ip sv w)
  then show ?case by (simp add: hop_loop.simps Let_def)
next
  case (4 d o' depth t0 hops ip sv w)
  then show ?case
    by (auto simp: hop_loop.simps Let_def split: prod.splits reply.splits list.splits option.splits)
qed

subsection \<open>The cache\<close>

text \<open>
  Claim C6. \<^verbatim>\<open>get\<close> returns the stored address with status HIT exactly when the domain has
  an entry and \<open>now - insertedAt < 3600\<close>, leaving the cache as it is; a stale entry is deleted
  and the result is absent with status MISS; a missing entry gives absent and MISS. \<^verbatim>\<open>set\<close>
  overwrites the entry of its domain with the address and the current time, whatever was
  stored, and touches no other entry.
\<close>

theorem cache_get_hit_iff_fresh:
  "((\<exists>c'. DnsCache_get c d now = ((Some ip, ''HIT''), c'))
      = (\<exists>t. c d = Some (ip, t) \<and> now - t < 3600))
   \<and> snd (fst (DnsCache_get c d now))
        = (if fst (fst (DnsCache_get c d now)) = None then ''MISS'' else ''HIT'')
   \<and> ((\<exists>t. c d = Some (ip, t) \<and> now - t < 3600)
        \<longrightarrow> DnsCache_get c d now = ((Some ip, ''HIT''), c))
   \<and> ((\<exists>t. c d = Some (ip, t) \<and> \<not> now - t < 3600)
        \<longrightarrow> DnsCache_get c d now = ((None, ''MISS''), c(d := None)))
   \<and> (c d = None \<longrightarrow> DnsCache_get c d now = ((None, ''MISS''), c))
   \<and> DnsCache_set c d ip now d = Some (ip, now)
   \<and> (\<forall>d'. d' \<noteq> d \<longrightarrow> DnsCache_set c d ip now d' = c d')"
  by (auto simp: DnsCache_get_def DnsCache_set_def CACHE_TTL_SECONDS_def split: option.splits)

theorem cache_get_hit_iff_fresh_witness:
  "DnsCache_get (DnsCache_set Map.empty ''example.com'' ''93.184.216.34'' 100) ''example.com'' 3699
     = ((Some ''93.184.216.34'', ''HIT''), DnsCache_set Map.empty ''example.com'' ''93.184.216.34'' 100)
   \<and> DnsCache_get (DnsCache_set Map.empty ''example.com'' ''93.184.216.34'' 100) ''example.com'' 3700
     = ((None, ''MISS''), Map.empty)
   \<and> DnsCache_set (DnsCache_set Map.empty ''example.com'' ''93.184.216.34'' 100)
        ''example.com'' ''10.0.0.1'' 200 ''example.com'' = Some (''10.0.0.1'', 200)"
  using cache_get_hit_iff_fresh [where c = "DnsCache_set Map.empty ''example.com'' ''93.184.216.34'' 100"
              and d = "''example.com''" and now = 3699 and ip = "''93.184.216.34''"]
        cache_get_hit_iff_fresh [where c = "DnsCache_set Map.empty ''example.com'' ''93.184.216.34'' 100"
              and d = "''example.com''" and now = 3700 and ip = "''93.184.216.34''"]
        cache_get_hit_iff_fresh [where c = "DnsCache_set Map.empty ''example.com'' ''93.184.216.34'' 100"
              and d = "''example.com''" and now = 200 and ip = "''10.0.0.1''"]
  by (simp add: DnsCache_set_def)

text \<open>
  Claim C10. Cache keys are compared as given: an entry stored under one string is never
  seen or changed through a different string, a hit returns what was stored under exactly
  the queried string, and the only normalisation on the way in is the server's removal of
  trailing dots, which changes nothing else (no case folding). Names that differ in letter
  case, or by a trailing dot kept on a name-server name, are different keys.
\<close>

theorem cache_keys_exact:
  "(d' \<noteq> d \<longrightarrow>
      fst (DnsCache_get (DnsCache_set c d ip t) d' now) = fst (DnsCache_get c d' now)
      \<and> DnsCache_set c d ip t d' = c d')
   \<and> (DnsCache_get c d now = ((Some ip, ''HIT''), c') \<longrightarrow> (\<exists>t. c d = Some (ip, t)))
   \<and> rstrip_dots (s @ replicate k (CHR ''.'')) = rstrip_dots s
   \<and> ((s = [] \<or> last s \<noteq> CHR ''.'') \<longrightarrow> rstrip_dots s = s)"
proof -
  have "rstrip_dots (s @ replicate k (CHR ''.'')) = rstrip_dots s"
    by (induction k) (simp_all add: rstrip_dots_def replicate_app_Cons_same)
  moreover have "(s = [] \<or> last s \<noteq> CHR ''.'') \<longrightarrow> rstrip_dots s = s"
    by (cases s rule: rev_cases) (auto simp: rstrip_dots_def)
  ultimately show ?thesis
    by (auto simp: DnsCache_get_def DnsCache_set_def split: option.splits if_splits)
qed

theorem cache_keys_exact_witness:
  "''Example.com'' \<noteq> ''example.com''
   \<and> fst (DnsCache_get (DnsCache_set Map.empty ''example.com'' ''93.184.216.34'' 0) ''Example.com'' 1)
       = (None, ''MISS'')
   \<and> fst (DnsCache_get (DnsCache_set Map.empty ''ns1.example.com'' ''10.0.0.1'' 0) ''ns1.example.com.'' 1)
       = (None, ''MISS'')
   \<and> rstrip_dots ''Example.COM..'' = ''Example.COM''"
  using cache_keys_exact [where d' = "''Example.com''" and d = "''example.com''" and c = Map.empty
               and ip = "''93.184.216.34''" and t = 0 and now = 1 and s = "''Example.COM''" and k = 2]
        cache_keys_exact [where d' = "''ns1.example.com.''" and d = "''ns1.example.com''" and c = Map.empty
               and ip = "''10.0.0.1''" and t = 0 and now = 1 and s = "''Example.COM''" and k = 0]
  by (simp add: DnsCache_get_def DnsCache_set_def rstrip_dots_def numeral_2_eq_2)

subsection \<open>The plot registry\<close>

lemma find_snoc:
  "find P (xs @ [x]) = (case find P xs of None \<Rightarrow> (if P x then Some x else None) | Some y \<Rightarrow> Some y)"
  by (induction xs) auto

lemma record_all_snoc:
  "record_all (calls @ [(d, n, t)]) = record_plot_data d n t (record_all calls)"
  by (simp add: record_all_def)

lemma record_all_inv:
  "max_domains_for_plot (record_all calls) = 10
   \<and> unique_domains_resolved_count (record_all calls) = length (plot_data (record_all calls))
   \<and> length (plot_data (record_all calls)) \<le> 10
   \<and> distinct (map fst (plot_data (record_all calls)))"
proof (induction calls rule: rev_induct)
  case Nil
  show ?case by (simp add: record_all_def DnsLog_init_def)
next
  case (snoc c calls)
  obtain d n t where c: "c = (d, n, t)" by (cases c)
  from snoc show ?case
    unfolding c record_all_snoc by (auto simp: record_plot_data_def)
qed

lemma record_all_covers:
  "length (plot_data (record_all calls)) < 10
   \<Longrightarrow> fst ` set calls \<subseteq> fst ` set (plot_data (record_all calls))"
proof (induction calls rule: rev_induct)
  case Nil
  show ?case by simp
next
  case (snoc c calls)
  obtain d n t where c: "c = (d, n, t)" by (cases c)
  have inv: "unique_domains_resolved_count (record_all calls) = length (plot_data (record_all calls))"
            "max_domains_for_plot (record_all calls) = 10"
    using record_all_inv [of calls] by simp_all
  from snoc.prems have "length (plot_data (record_all calls)) < 10"
    unfolding c record_all_snoc by (auto simp: record_plot_data_def split: if_splits)
  with snoc.IH have "fst ` set calls \<subseteq> fst ` set (plot_data (record_all calls))" by simp
  with snoc.prems inv show ?case
    unfolding c record_all_snoc by (auto simp: record_plot_data_def split: if_splits)
qed

lemma record_all_first:
  "map_of (plot_data (record_all calls)) d = Some v
   \<Longrightarrow> \<exists>n t. find (\<lambda>c. fst c = d) calls = Some (d, n, t)
            \<and> v = \<lparr>total_servers_visited = n, total_latency = t\<rparr>"
proof (induction calls arbitrary: v rule: rev_induct)
  case Nil
  then show ?case by (simp add: record_all_def DnsLog_init_def)
next
  case (snoc c calls)
  obtain d' n' t' where c: "c = (d', n', t')" by (cases c)
  let ?l = "record_all calls"
  have inv: "unique_domains_resolved_count ?l = length (plot_data ?l)"
            "max_domains_for_plot ?l = 10"
    using record_all_inv [of calls] by simp_all
  show ?case
  proof (cases "map_of (plot_data ?l) d")
    case (Some v0)
    have "map_of (plot_data (record_all (calls @ [c]))) d = Some v0"
      using Some unfolding c record_all_snoc by (simp add: record_plot_data_def)
    with snoc.prems have "v = v0" by simp
    with snoc.IH [OF Some] show ?thesis by (auto simp: find_snoc)
  next
    case None
    have changed: "record_plot_data d' n' t' ?l \<noteq> ?l"
      using snoc.prems None unfolding c record_all_snoc by auto
    then have cond: "d' \<notin> fst ` set (plot_data ?l)" "length (plot_data ?l) < 10"
      by (auto simp: record_plot_data_def inv split: if_splits)
    then have ext: "plot_data (record_plot_data d' n' t' ?l) =
        plot_data ?l @ [(d', \<lparr>total_servers_visited = n', total_latency = t'\<rparr>)]"
      by (simp add: record_plot_data_def inv)
    from snoc.prems None have new1: "d' = d \<and> v = \<lparr>total_servers_visited = n', total_latency = t'\<rparr>"
      unfolding c record_all_snoc ext by (auto simp: map_add_def split: if_splits)
    then have new: "d' = d" "d \<notin> fst ` set (plot_data ?l)" "length (plot_data ?l) < 10"
      "v = \<lparr>total_servers_visited = n', total_latency = t'\<rparr>"
      using cond by simp_all
    from record_all_covers [OF new(3)] new(2) have "d \<notin> fst ` set calls" by blast
    then have "find (\<lambda>c. fst c = d) calls = None"
      by (force simp: find_None_iff)
    with new show ?thesis by (simp add: c find_snoc)
  qed
qed

subsection \<open>Running the model on concrete inputs\<close>

lemmas run_simps =
  resolve_iteratively.simps hop_loop.simps Let_def sr1_def DnsCache_get_def DnsCache_set_def
  add_log_def log_step_def record_plot_data_def truthy_def ns_ip_of_def get_step_type_def
  ROOT_SERVER_IP_def isdigit_def last_field_def cached_packet_def DNS_def
  CACHE_TTL_SECONDS_def init_world_def DnsLog_init_def numeral_eq_Suc

subsection \<open>The cache fast path\<close>

text \<open>
  Claim C2, as the code has it. A call whose depth does not exceed \<open>max_depth\<close>, for a domain
  with a cache entry younger than 3600 seconds holding a non-empty address, returns at once a
  packet with that address as its single A record: nothing is sent and no reply is consumed,
  cache and clock stay as they are, and the only change is one log record of mode
  Iterative (Cached) with round-trip time 0 and cache status HIT, followed by the
  registration attempt for the plot. The depth test comes before the cache lookup.
\<close>

theorem cache_hit_short_circuit:
  assumes "depth \<le> max_depth"
    and "dns_cache w domain = Some (ip, t)"
    and "clock w - t < 3600"
    and "ip \<noteq> []"
  shows "resolve_iteratively domain od depth max_depth w =
           (Some (cached_packet domain ip),
            w\<lparr>dns_log := record_plot_data domain 1 0
                 (log_step (clock w) domain ''Iterative (Cached)'' ''N/A'' ''Cache''
                    (''Answer: '' @ ip) 0 (Some 0) ''HIT'' (dns_log w))\<rparr>)
         \<and> net (snd (resolve_iteratively domain od depth max_depth w)) = net w
         \<and> sent (snd (resolve_iteratively domain od depth max_depth w)) = sent w
         \<and> an (cached_packet domain ip) = [A_RR domain ip]"
proof -
  have get: "DnsCache_get (dns_cache w) domain (clock w) = ((Some ip, ''HIT''), dns_cache w)"
    using assms(2,3) by (simp add: DnsCache_get_def CACHE_TTL_SECONDS_def)
  have eq: "resolve_iteratively domain od depth max_depth w =
           (Some (cached_packet domain ip),
            w\<lparr>dns_log := record_plot_data domain 1 0
                 (log_step (clock w) domain ''Iterative (Cached)'' ''N/A'' ''Cache''
                    (''Answer: '' @ ip) 0 (Some 0) ''HIT'' (dns_log w))\<rparr>)"
    using assms(1,4) by (simp add: resolve_iteratively.simps get truthy_def add_log_def Let_def)
  show ?thesis
    unfolding eq by (simp add: cached_packet_def DNS_def)
qed

theorem cache_hit_short_circuit_witness:
  "resolve_iteratively ''example.com'' None 0 10
     ((init_world 100 [])\<lparr>dns_cache := DnsCache_set Map.empty ''example.com'' ''93.184.216.34'' 50\<rparr>)
   = (Some (cached_packet ''example.com'' ''93.184.216.34''),
      (init_world 100 [])\<lparr>dns_cache := DnsCache_set Map.empty ''example.com'' ''93.184.216.34'' 50,
         dns_log := record_plot_data ''example.com'' 1 0
           (log_step 100 ''example.com'' ''Iterative (Cached)'' ''N/A'' ''Cache''
              ''Answer: 93.184.216.34'' 0 (Some 0) ''HIT'' DnsLog_init)\<rparr>)"
  using cache_hit_short_circuit [of 0 10
     "(init_world 100 [])\<lparr>dns_cache := DnsCache_set Map.empty ''example.com'' ''93.184.216.34'' 50\<rparr>"
     "''example.com''" "''93.184.216.34''" 50 None]
  by (simp add: init_world_def DnsCache_set_def)

text \<open>
  Claim C2 as stated fails: with a fresh entry for the domain, a call at depth 11 against the
  bound 10 returns failure without reading the cache; and a fresh entry holding the empty
  address fails the truthiness test, so the root server is queried.
\<close>

theorem cache_hit_after_depth_check_counterexample:
  "resolve_iteratively ''example.com'' None 11 10
     ((init_world 100 [])\<lparr>dns_cache := DnsCache_set Map.empty ''example.com'' ''93.184.216.34'' 50\<rparr>)
   = (None,
      (init_world 100 [])\<lparr>dns_cache := DnsCache_set Map.empty ''example.com'' ''93.184.216.34'' 50\<rparr>)
   \<and> fst (resolve_iteratively ''example.com'' None 0 10
       ((init_world 100 [])\<lparr>dns_cache := DnsCache_set Map.empty ''example.com'' [] 50\<rparr>)) = None
   \<and> sent (snd (resolve_iteratively ''example.com'' None 0 10
       ((init_world 100 [])\<lparr>dns_cache := DnsCache_set Map.empty ''example.com'' [] 50\<rparr>)))
       = [(ROOT_SERVER_IP, ''example.com'')]"
  by (simp add: run_simps)

subsection \<open>The server's replies\<close>

text \<open>
  Claim C9. For a datagram with a question section: when the resolver returns a response,
  the server answers with the request's ID, QR=1, AA=1, RCODE=0, the question, and the answer
  records of that response (there is at least one); when the resolver fails, for whatever
  reason, the server answers with the request's ID, QR=1, RCODE=2, the question and no answer
  record.
\<close>

theorem server_reply:
  assumes "qd q = question # others"
  shows "(\<forall>r w1. resolve_iteratively (rstrip_dots (qname question)) None 0 10 w = (Some r, w1) \<longrightarrow>
            (\<exists>p. serve_datagram q w = (Some p, w1)
                \<and> ident p = ident q \<and> qr p = 1 \<and> aa p = 1 \<and> rcode p = 0
                \<and> qd p = qd q \<and> an p = an r \<and> an p \<noteq> []))
       \<and> (\<forall>w1. resolve_iteratively (rstrip_dots (qname question)) None 0 10 w = (None, w1) \<longrightarrow>
            (\<exists>p. serve_datagram q w = (Some p, w1)
                \<and> ident p = ident q \<and> qr p = 1 \<and> rcode p = 2
                \<and> qd p = qd q \<and> an p = []))"
proof (intro conjI allI impI)
  fix r w1
  assume res: "resolve_iteratively (rstrip_dots (qname question)) None 0 10 w = (Some r, w1)"
  then have "a_rdatas (an r) \<noteq> []"
    using resolve_answer_nonempty(1) [of "rstrip_dots (qname question)" None 0 10 w r] by simp
  then have "an r \<noteq> []" by auto
  with assms res show "\<exists>p. serve_datagram q w = (Some p, w1)
                \<and> ident p = ident q \<and> qr p = 1 \<and> aa p = 1 \<and> rcode p = 0
                \<and> qd p = qd q \<and> an p = an r \<and> an p \<noteq> []"
    by (simp add: serve_datagram_def DNS_def)
next
  fix w1
  assume "resolve_iteratively (rstrip_dots (qname question)) None 0 10 w = (None, w1)"
  with assms show "\<exists>p. serve_datagram q w = (Some p, w1)
                \<and> ident p = ident q \<and> qr p = 1 \<and> rcode p = 2
                \<and> qd p = qd q \<and> an p = []"
    by (simp add: serve_datagram_def DNS_def)
qed

theorem server_reply_witness:
  "fst (resolve_iteratively ''example.com'' None 0 10 (init_world 0 [])) = None
   \<and> rcode (the (fst (serve_datagram (DNS\<lparr>ident := 4660, qd := [\<lparr>qname = ''example.com.''\<rparr>]\<rparr>)
                           (init_world 0 [])))) = 2
   \<and> qr (the (fst (serve_datagram (DNS\<lparr>ident := 4660, qd := [\<lparr>qname = ''example.com.''\<rparr>]\<rparr>)
                           (init_world 0 [])))) = 1
   \<and> an (the (fst (serve_datagram (DNS\<lparr>ident := 4660, qd := [\<lparr>qname = ''example.com.''\<rparr>]\<rparr>)
                           (init_world 0 [])))) = []
   \<and> ident (the (fst (serve_datagram (DNS\<lparr>ident := 4660, qd := [\<lparr>qname = ''example.com.''\<rparr>]\<rparr>)
                           (init_world 0 [])))) = 4660"
proof -
  obtain w1 where run: "resolve_iteratively ''example.com'' None 0 10 (init_world 0 []) = (None, w1)"
    by (simp add: run_simps)
  have name: "rstrip_dots (qname \<lparr>qname = ''example.com.''\<rparr>) = ''example.com''"
    by (simp add: rstrip_dots_def)
  have q: "qd (DNS\<lparr>ident := 4660, qd := [\<lparr>qname = ''example.com.''\<rparr>]\<rparr>) = \<lparr>qname = ''example.com.''\<rparr> # []"
    by simp
  from server_reply [OF q, of "init_world 0 []"] run
  obtain p where "serve_datagram (DNS\<lparr>ident := 4660, qd := [\<lparr>qname = ''example.com.''\<rparr>]\<rparr>) (init_world 0 []) = (Some p, w1)"
    "ident p = 4660" "qr p = 1" "rcode p = 2" "an p = []"
    unfolding name by auto
  then show ?thesis using run by simp
qed

subsection \<open>Single hops\<close>

lemma glue_ip_of_first_A:
  "a_rdatas pre = [] \<Longrightarrow> glue_ip_of (pre @ A_RR owner g # post) = Some g"
proof (induction pre)
  case Nil
  show ?case by simp
next
  case (Cons r pre)
  then show ?case by (cases r) simp_all
qed

lemma hop_glue:
  assumes "net w = (dl, DnsReply resp) # rest"
    and "a_rdatas (an resp) = []"
    and "ns_names_of (ns resp) = n # others"
    and "glue_ip_of (ar resp) = Some g"
    and "g \<noteq> []"
  shows "hop_loop d o' depth t0 (Suc hops) ip sv w =
           hop_loop d o' depth t0 hops g (Suc sv)
             (add_log (clock w + dl) d ''Iterative (Delegation)'' ip (get_step_type ip)
                (''Delegation to: '' @ join '', '' (n # others) @ '' @ Glue IP: '' @ g)
                dl None ''MISS''
                (w\<lparr>clock := clock w + dl, net := rest, sent := sent w @ [(ip, d)]\<rparr>))"
  using assms by (simp add: hop_loop.simps sr1_def Let_def truthy_def)

lemma hop_answer:
  assumes "net w = (dl, DnsReply resp) # rest"
    and "a_rdatas (an resp) = a # others"
  shows "hop_loop d o' depth t0 (Suc hops) ip sv w =
           (Some resp,
            w\<lparr>clock := clock w + dl, net := rest, sent := sent w @ [(ip, d)],
              dns_cache := (dns_cache w)(d \<mapsto> (a, clock w + dl)),
              dns_log := record_plot_data d (Suc sv) (clock w + dl - t0)
                (log_step (clock w + dl) d ''Iterative (Resolved)'' ip ''Authoritative''
                   (''Answer: '' @ a) dl (Some (clock w + dl - t0)) ''MISS'' (dns_log w))\<rparr>)"
  using assms by (simp add: hop_loop.simps sr1_def Let_def add_log_def DnsCache_set_def)

text \<open>
  Claim C4, as the code has it. When the answer section has no A record, the authority
  section names a server and the additional section has an A record, the address taken as
  glue is that of the first A record of the additional section, whatever its owner name; when
  it is not empty, one Delegation record is logged and the loop goes on from that address
  with one hop less.
\<close>

theorem glue_is_first_additional_A:
  assumes "net w = (dl, DnsReply resp) # rest"
    and "a_rdatas (an resp) = []"
    and "ns_names_of (ns resp) = n # others"
    and "ar resp = pre @ A_RR owner g # post"
    and "a_rdatas pre = []"
    and "g \<noteq> []"
  shows "hop_loop d o' depth t0 (Suc hops) ip sv w =
           hop_loop d o' depth t0 hops g (Suc sv)
             (add_log (clock w + dl) d ''Iterative (Delegation)'' ip (get_step_type ip)
                (''Delegation to: '' @ join '', '' (n # others) @ '' @ Glue IP: '' @ g)
                dl None ''MISS''
                (w\<lparr>clock := clock w + dl, net := rest, sent := sent w @ [(ip, d)]\<rparr>))"
  using assms(4,5) hop_glue [OF assms(1,2,3) _ assms(6)] by (simp add: glue_ip_of_first_A)

theorem glue_is_first_additional_A_witness:
  "sent (snd (hop_loop ''example.com'' ''example.com'' 0 0 (Suc 0) ROOT_SERVER_IP 0
      (init_world 0 [(1, DnsReply (DNS\<lparr>ns := [NS_RR ''com'' (Some ''a.gtld-servers.net'')],
          ar := [Other_RR ''a.gtld-servers.net'' 28, A_RR ''a.gtld-servers.net'' ''192.5.6.30'']\<rparr>))])))
   = [(ROOT_SERVER_IP, ''example.com'')]
   \<and> map resolution_mode (log_entries (dns_log (snd (hop_loop ''example.com'' ''example.com'' 0 0 (Suc 0) ROOT_SERVER_IP 0
      (init_world 0 [(1, DnsReply (DNS\<lparr>ns := [NS_RR ''com'' (Some ''a.gtld-servers.net'')],
          ar := [Other_RR ''a.gtld-servers.net'' 28, A_RR ''a.gtld-servers.net'' ''192.5.6.30'']\<rparr>))])))))
   = [''Iterative (Delegation)'', ''Iterative (Failed)'']"
proof -
  let ?resp = "DNS\<lparr>ns := [NS_RR ''com'' (Some ''a.gtld-servers.net'')],
          ar := [Other_RR ''a.gtld-servers.net'' 28, A_RR ''a.gtld-servers.net'' ''192.5.6.30'']\<rparr>"
  have eq: "hop_loop ''example.com'' ''example.com'' 0 0 (Suc 0) ROOT_SERVER_IP 0
              (init_world 0 [(1, DnsReply ?resp)]) =
            hop_loop ''example.com'' ''example.com'' 0 0 0 ''192.5.6.30'' (Suc 0)
             (add_log (clock (init_world 0 [(1, DnsReply ?resp)]) + 1) ''example.com''
                ''Iterative (Delegation)'' ROOT_SERVER_IP (get_step_type ROOT_SERVER_IP)
                (''Delegation to: '' @ join '', '' (''a.gtld-servers.net'' # []) @ '' @ Glue IP: ''
                   @ ''192.5.6.30'')
                1 None ''MISS''
                ((init_world 0 [(1, DnsReply ?resp)])\<lparr>clock := clock (init_world 0 [(1, DnsReply ?resp)]) + 1,
                   net := [], sent := sent (init_world 0 [(1, DnsReply ?resp)])
                     @ [(ROOT_SERVER_IP, ''example.com'')]\<rparr>))"
    by (rule glue_is_first_additional_A [where pre = "[Other_RR ''a.gtld-servers.net'' 28]"
          and owner = "''a.gtld-servers.net''" and post = "[]" and resp = ?resp])
       (simp_all add: init_world_def DNS_def)
  show ?thesis
    unfolding eq by (simp add: run_simps)
qed

text \<open>
  Claim C4 as stated fails: the owner name of the glue record is never compared with the
  name server's name. Here the additional section holds an A record of an unrelated name
  before the A record of the name server; the next query goes to the unrelated address.
\<close>

theorem glue_owner_not_matched_counterexample:
  "sent (snd (resolve_iteratively ''example.com'' None 0 10
      (init_world 0 [(1, DnsReply (DNS\<lparr>ns := [NS_RR ''com'' (Some ''a.gtld-servers.net'')],
          ar := [A_RR ''unrelated.example.org'' ''10.9.9.9'',
                 A_RR ''a.gtld-servers.net'' ''192.5.6.30'']\<rparr>))])))
   = [(ROOT_SERVER_IP, ''example.com''), (''10.9.9.9'', ''example.com'')]"
  by (simp add: run_simps)

subsection \<open>Delegation chains with glue\<close>

lemma glue_referralE:
  assumes "glue_referral resp"
  obtains n others g where "a_rdatas (an resp) = []" "ns_names_of (ns resp) = n # others"
    "glue_ip_of (ar resp) = Some g" "g \<noteq> []"
  using assms unfolding glue_referral_def truthy_def
  by (cases "ns_names_of (ns resp)"; cases "glue_ip_of (ar resp)") auto

lemma plot_data_record_after_log:
  "plot_data (record_plot_data d n t (log_step ts dn m s st rr rtt tt cs l))
     = plot_data (record_plot_data d n t l)"
  by (simp add: record_plot_data_def log_step_def)

lemma log_entries_record_plot_data:
  "log_entries (record_plot_data d n t l) = log_entries l"
  by (simp add: record_plot_data_def)

lemma hop_loop_glue_chain:
  assumes "list_all (\<lambda>x. glue_referral (snd x)) chain"
    and "net w = map (\<lambda>x. (fst x, DnsReply (snd x))) chain @ (dl, DnsReply ans) # rest"
    and "a_rdatas (an ans) = a # others"
    and "length chain < hops"
  shows "\<exists>w'. hop_loop d o' depth t0 hops ip sv w = (Some ans, w')
           \<and> dns_cache w' = (dns_cache w)(d \<mapsto> (a, clock w'))
           \<and> clock w' = clock w + sum_list (map fst chain) + dl
           \<and> net w' = rest
           \<and> length (sent w') = length (sent w) + length chain + 1
           \<and> plot_data (dns_log w')
               = plot_data (record_plot_data d (sv + length chain + 1) (clock w' - t0) (dns_log w))
           \<and> domain_name (last (log_entries (dns_log w'))) = d
           \<and> resolution_mode (last (log_entries (dns_log w'))) = ''Iterative (Resolved)''
           \<and> response_or_referral (last (log_entries (dns_log w'))) = ''Answer: '' @ a"
  using assms
proof (induction chain arbitrary: hops ip sv w)
  case Nil
  then obtain h where h: "hops = Suc h" by (cases hops) auto
  from Nil.prems(2) have net: "net w = (dl, DnsReply ans) # rest" by simp
  let ?w' = "w\<lparr>clock := clock w + dl, net := rest, sent := sent w @ [(ip, d)],
              dns_cache := (dns_cache w)(d \<mapsto> (a, clock w + dl)),
              dns_log := record_plot_data d (Suc sv) (clock w + dl - t0)
                (log_step (clock w + dl) d ''Iterative (Resolved)'' ip ''Authoritative''
                   (''Answer: '' @ a) dl (Some (clock w + dl - t0)) ''MISS'' (dns_log w))\<rparr>"
  have eq: "hop_loop d o' depth t0 hops ip sv w = (Some ans, ?w')"
    unfolding h by (rule hop_answer [OF net Nil.prems(3)])
  have "dns_cache ?w' = (dns_cache w)(d \<mapsto> (a, clock ?w'))"
    "clock ?w' = clock w + sum_list (map fst []) + dl"
    "net ?w' = rest"
    "length (sent ?w') = length (sent w) + length ([]::(real \<times> dns) list) + 1"
    "plot_data (dns_log ?w')
       = plot_data (record_plot_data d (sv + length ([]::(real \<times> dns) list) + 1) (clock ?w' - t0) (dns_log w))"
    by (simp_all add: plot_data_record_after_log)
  moreover have "domain_name (last (log_entries (dns_log ?w'))) = d"
    "resolution_mode (last (log_entries (dns_log ?w'))) = ''Iterative (Resolved)''"
    "response_or_referral (last (log_entries (dns_log ?w'))) = ''Answer: '' @ a"
    by (simp_all add: log_entries_record_plot_data log_step_def)
  ultimately show ?case using eq by blast
next
  case (Cons x chain)
  then obtain h where h: "hops = Suc h" by (cases hops) auto
  from Cons.prems(1) have ref: "glue_referral (snd x)" and refs: "list_all (\<lambda>x. glue_referral (snd x)) chain"
    by simp_all
  from ref obtain n ns' g where r: "a_rdatas (an (snd x)) = []" "ns_names_of (ns (snd x)) = n # ns'"
    "glue_ip_of (ar (snd x)) = Some g" "g \<noteq> []"
    by (rule glue_referralE)
  let ?rest1 = "map (\<lambda>x. (fst x, DnsReply (snd x))) chain @ (dl, DnsReply ans) # rest"
  from Cons.prems(2) have net: "net w = (fst x, DnsReply (snd x)) # ?rest1" by simp
  define w1 where "w1 = add_log (clock w + fst x) d ''Iterative (Delegation)'' ip (get_step_type ip)
                (''Delegation to: '' @ join '', '' (n # ns') @ '' @ Glue IP: '' @ g)
                (fst x) None ''MISS''
                (w\<lparr>clock := clock w + fst x, net := ?rest1, sent := sent w @ [(ip, d)]\<rparr>)"
  have step: "hop_loop d o' depth t0 hops ip sv w = hop_loop d o' depth t0 h g (Suc sv) w1"
    unfolding h w1_def by (rule hop_glue [OF net r])
  have w1: "net w1 = ?rest1" "dns_cache w1 = dns_cache w" "clock w1 = clock w + fst x"
    "length (sent w1) = Suc (length (sent w))"
    "plot_data (record_plot_data d k t (dns_log w1)) = plot_data (record_plot_data d k t (dns_log w))"
    for k t
    by (simp_all add: w1_def add_log_def plot_data_record_after_log)
  from Cons.prems(4) h have len: "length chain < h" by simp
  from Cons.IH [OF refs w1(1) Cons.prems(3) len, of g "Suc sv"]
  obtain w' where w': "hop_loop d o' depth t0 h g (Suc sv) w1 = (Some ans, w')"
           "dns_cache w' = (dns_cache w1)(d \<mapsto> (a, clock w'))"
           "clock w' = clock w1 + sum_list (map fst chain) + dl"
           "net w' = rest"
           "length (sent w') = length (sent w1) + length chain + 1"
           "plot_data (dns_log w')
               = plot_data (record_plot_data d (Suc sv + length chain + 1) (clock w' - t0) (dns_log w1))"
           "domain_name (last (log_entries (dns_log w'))) = d"
           "resolution_mode (last (log_entries (dns_log w'))) = ''Iterative (Resolved)''"
           "response_or_referral (last (log_entries (dns_log w'))) = ''Answer: '' @ a"
    by blast
  have "hop_loop d o' depth t0 hops ip sv w = (Some ans, w')"
    using step w'(1) by simp
  moreover have "dns_cache w' = (dns_cache w)(d \<mapsto> (a, clock w'))"
    using w'(2) w1(2) by simp
  moreover have "clock w' = clock w + sum_list (map fst (x # chain)) + dl"
    using w'(3) w1(3) by simp
  moreover have "length (sent w') = length (sent w) + length (x # chain) + 1"
    using w'(5) w1(4) by simp
  moreover have "plot_data (dns_log w')
      = plot_data (record_plot_data d (sv + length (x # chain) + 1) (clock w' - t0) (dns_log w))"
    using w'(6) w1(5) by simp
  ultimately show ?case using w'(4,7,8,9) by blast
qed

text \<open>
  Claim C1. Take a call within its depth bound that misses the cache, and replies that form a
  chain of \<open>k - 1\<close> referrals with glue followed by a response whose answer section has an A
  record, with \<open>k \<le> max_depth\<close>. Then the call returns that response, whose first A record
  holds the address \<open>a\<close>; the last log record is a Resolved record for the domain with
  \<open>Answer: a\<close>; the cache maps the domain to \<open>a\<close> with the time of the answer; exactly \<open>k\<close>
  queries were sent; and the plot registration was attempted with \<open>k\<close> servers visited.
\<close>

theorem glue_chain_resolves:
  assumes "depth \<le> max_depth"
    and "\<not> truthy (fst (fst (DnsCache_get (dns_cache w) domain (clock w))))"
    and "list_all (\<lambda>x. glue_referral (snd x)) chain"
    and "net w = map (\<lambda>x. (fst x, DnsReply (snd x))) chain @ (dl, DnsReply ans) # rest"
    and "a_rdatas (an ans) = a # others"
    and "length chain < max_depth"
  shows "\<exists>w'. resolve_iteratively domain od depth max_depth w = (Some ans, w')
           \<and> dns_cache w' domain = Some (a, clock w')
           \<and> clock w' = clock w + sum_list (map fst chain) + dl
           \<and> net w' = rest
           \<and> length (sent w') = length (sent w) + (length chain + 1)
           \<and> plot_data (dns_log w')
               = plot_data (record_plot_data domain (length chain + 1) (clock w' - clock w) (dns_log w))
           \<and> domain_name (last (log_entries (dns_log w'))) = domain
           \<and> resolution_mode (last (log_entries (dns_log w'))) = ''Iterative (Resolved)''
           \<and> response_or_referral (last (log_entries (dns_log w'))) = ''Answer: '' @ a"
proof -
  obtain ipc st c where get: "DnsCache_get (dns_cache w) domain (clock w) = ((ipc, st), c)"
    by (metis surj_pair)
  define w1 where "w1 = w\<lparr>dns_cache := c\<rparr>"
  define o' where "o' = (case od of None \<Rightarrow> domain | Some x \<Rightarrow> x)"
  from assms(2) get have miss: "\<not> truthy ipc" by simp
  have res: "resolve_iteratively domain od depth max_depth w =
      hop_loop domain o' depth (clock w) max_depth ROOT_SERVER_IP 0 w1"
    using assms(1) miss by (simp add: resolve_iteratively.simps get Let_def w1_def o'_def)
  have w1: "net w1 = map (\<lambda>x. (fst x, DnsReply (snd x))) chain @ (dl, DnsReply ans) # rest"
    "clock w1 = clock w" "sent w1 = sent w" "dns_log w1 = dns_log w"
    using assms(4) by (simp_all add: w1_def)
  from hop_loop_glue_chain [OF assms(3) w1(1) assms(5,6), of domain o' depth "clock w" ROOT_SERVER_IP 0]
  obtain w' where w': "hop_loop domain o' depth (clock w) max_depth ROOT_SERVER_IP 0 w1 = (Some ans, w')"
           "dns_cache w' = (dns_cache w1)(domain \<mapsto> (a, clock w'))"
           "clock w' = clock w1 + sum_list (map fst chain) + dl"
           "net w' = rest"
           "length (sent w') = length (sent w1) + length chain + 1"
           "plot_data (dns_log w')
               = plot_data (record_plot_data domain (0 + length chain + 1) (clock w' - clock w) (dns_log w1))"
           "domain_name (last (log_entries (dns_log w'))) = domain"
           "resolution_mode (last (log_entries (dns_log w'))) = ''Iterative (Resolved)''"
           "response_or_referral (last (log_entries (dns_log w'))) = ''Answer: '' @ a"
    by blast
  have "resolve_iteratively domain od depth max_depth w = (Some ans, w')"
    using res w'(1) by simp
  moreover have "dns_cache w' domain = Some (a, clock w')"
    using w'(2) by simp
  moreover have "clock w' = clock w + sum_list (map fst chain) + dl"
    using w'(3) w1(2) by simp
  moreover have "length (sent w') = length (sent w) + (length chain + 1)"
    using w'(5) w1(3) by simp
  moreover have "plot_data (dns_log w')
      = plot_data (record_plot_data domain (length chain + 1) (clock w' - clock w) (dns_log w))"
    using w'(6) w1(4) by simp
  ultimately show ?thesis using w'(4,7,8,9) by blast
qed

theorem glue_chain_resolves_witness:
  "fst (resolve_iteratively ''example.com'' None 0 10
     (init_world 0
        [(1, DnsReply (DNS\<lparr>ns := [NS_RR ''example.com'' (Some ''a.example-servers.net'')],
                           ar := [A_RR ''a.example-servers.net'' ''199.43.135.53'']\<rparr>)),
         (1, DnsReply (DNS\<lparr>an := [A_RR ''example.com'' ''93.184.216.34'']\<rparr>))]))
     = Some (DNS\<lparr>an := [A_RR ''example.com'' ''93.184.216.34'']\<rparr>)
   \<and> dns_cache (snd (resolve_iteratively ''example.com'' None 0 10
     (init_world 0
        [(1, DnsReply (DNS\<lparr>ns := [NS_RR ''example.com'' (Some ''a.example-servers.net'')],
                           ar := [A_RR ''a.example-servers.net'' ''199.43.135.53'']\<rparr>)),
         (1, DnsReply (DNS\<lparr>an := [A_RR ''example.com'' ''93.184.216.34'']\<rparr>))]))) ''example.com''
     = Some (''93.184.216.34'', 2)
   \<and> length (sent (snd (resolve_iteratively ''example.com'' None 0 10
     (init_world 0
        [(1, DnsReply (DNS\<lparr>ns := [NS_RR ''example.com'' (Some ''a.example-servers.net'')],
                           ar := [A_RR ''a.example-servers.net'' ''199.43.135.53'']\<rparr>)),
         (1, DnsReply (DNS\<lparr>an := [A_RR ''example.com'' ''93.184.216.34'']\<rparr>))])))) = 2
   \<and> plot_data (dns_log (snd (resolve_iteratively ''example.com'' None 0 10
     (init_world 0
        [(1, DnsReply (DNS\<lparr>ns := [NS_RR ''example.com'' (Some ''a.example-servers.net'')],
                           ar := [A_RR ''a.example-servers.net'' ''199.43.135.53'']\<rparr>)),
         (1, DnsReply (DNS\<lparr>an := [A_RR ''example.com'' ''93.184.216.34'']\<rparr>))]))))
     = [(''example.com'', \<lparr>total_servers_visited = 2, total_latency = 2\<rparr>)]"
proof -
  let ?ref = "DNS\<lparr>ns := [NS_RR ''example.com'' (Some ''a.example-servers.net'')],
                           ar := [A_RR ''a.example-servers.net'' ''199.43.135.53'']\<rparr>"
  let ?ans = "DNS\<lparr>an := [A_RR ''example.com'' ''93.184.216.34'']\<rparr>"
  let ?w = "init_world 0 [(1, DnsReply ?ref), (1, DnsReply ?ans)]"
  have 1: "(0::nat) \<le> 10" by simp
  have 2: "\<not> truthy (fst (fst (DnsCache_get (dns_cache ?w) ''example.com'' (clock ?w))))"
    by (simp add: init_world_def DnsCache_get_def truthy_def)
  have 3: "list_all (\<lambda>x. glue_referral (snd x)) [(1::real, ?ref)]"
    by (simp add: glue_referral_def DNS_def truthy_def)
  have 4: "net ?w = map (\<lambda>x. (fst x, DnsReply (snd x))) [(1::real, ?ref)] @ (1, DnsReply ?ans) # []"
    by (simp add: init_world_def)
  have 5: "a_rdatas (an ?ans) = ''93.184.216.34'' # []"
    by (simp add: DNS_def)
  have 6: "length [(1::real, ?ref)] < 10" by simp
  from glue_chain_resolves [OF 1 2 3 4 5 6, of None]
  obtain w' where w': "resolve_iteratively ''example.com'' None 0 10 ?w = (Some ?ans, w')"
    "dns_cache w' ''example.com'' = Some (''93.184.216.34'', clock w')"
    "clock w' = clock ?w + sum_list (map fst [(1::real, ?ref)]) + 1"
    "length (sent w') = length (sent ?w) + (length [(1::real, ?ref)] + 1)"
    "plot_data (dns_log w')
       = plot_data (record_plot_data ''example.com'' (length [(1::real, ?ref)] + 1) (clock w' - clock ?w) (dns_log ?w))"
    by blast
  have "clock w' = 2" using w'(3) by (simp add: init_world_def)
  moreover have "length (sent w') = 2" using w'(4) by (simp add: init_world_def)
  moreover have "plot_data (dns_log w') = [(''example.com'', \<lparr>total_servers_visited = 2, total_latency = 2\<rparr>)]"
    using w'(5) \<open>clock w' = 2\<close> by (simp add: init_world_def record_plot_data_def DnsLog_init_def)
  ultimately show ?thesis using w'(1,2) by simp
qed

subsection \<open>Referrals without glue\<close>

lemma hop_no_glue_self:
  assumes "net w = (dl, DnsReply resp) # rest"
    and "a_rdatas (an resp) = []"
    and "ns_names_of (ns resp) = o' # others"
    and "\<not> truthy (glue_ip_of (ar resp))"
  shows "hop_loop d o' depth t0 (Suc hops) ip sv w =
           (None, add_log (clock w + dl) d ''Iterative (Failed delegation)'' ip (get_step_type ip)
                    ''No glue IP and NS same as original domain'' dl None ''MISS''
                    (w\<lparr>clock := clock w + dl, net := rest, sent := sent w @ [(ip, d)]\<rparr>))"
  using assms by (simp add: hop_loop.simps sr1_def Let_def)

lemma hop_no_glue_nested:
  assumes "net w = (dl, DnsReply resp) # rest"
    and "a_rdatas (an resp) = []"
    and "ns_names_of (ns resp) = name # others"
    and "\<not> truthy (glue_ip_of (ar resp))"
    and "name \<noteq> o'"
  shows "hop_loop d o' depth t0 (Suc hops) ip sv w =
           (case resolve_iteratively name (Some o') (depth + 1) 10
                   (w\<lparr>clock := clock w + dl, net := rest, sent := sent w @ [(ip, d)]\<rparr>) of
              (temp_ns_resp, w2) \<Rightarrow>
                (case ns_ip_of temp_ns_resp of
                   Some next_ip \<Rightarrow>
                     hop_loop d o' depth t0 hops next_ip (Suc sv)
                       (add_log (clock w + dl) d ''Iterative (Delegation)'' ip (get_step_type ip)
                          ''Timeout or invalid response'' dl None ''MISS'' w2)
                 | None \<Rightarrow>
                     (None, add_log (clock w + dl) d ''Iterative (Failed delegation)'' ip
                        (get_step_type ip) (''Failed to resolve next NS IP: '' @ name) dl None
                        ''MISS'' w2)))"
  using assms by (simp add: hop_loop.simps sr1_def Let_def split: prod.split option.split)

text \<open>
  Claim C3 at a failing input. The root refers \<open>example.com\<close> to the name server
  \<open>ns1.example.net\<close> without glue; the nested resolution of that name is answered with a CNAME
  record followed by an A record. The nested call succeeds: it logs Resolved and caches
  10.1.1.1 for the name server. The caller reads only the first answer record, finds no A
  record there, logs a failed delegation and fails, without going on to 10.1.1.1. With the
  same address already cached for the name server, the same referral is followed to
  10.1.1.1.
\<close>

theorem nested_answer_behind_cname_dropped:
  "fst (resolve_iteratively ''example.com'' None 0 10
     (init_world 0
        [(1, DnsReply (DNS\<lparr>ns := [NS_RR ''example.com'' (Some ''ns1.example.net'')]\<rparr>)),
         (1, DnsReply (DNS\<lparr>an := [Other_RR ''ns1.example.net'' 5,
                                   A_RR ''host.example.net'' ''10.1.1.1'']\<rparr>))])) = None
   \<and> dns_cache (snd (resolve_iteratively ''example.com'' None 0 10
     (init_world 0
        [(1, DnsReply (DNS\<lparr>ns := [NS_RR ''example.com'' (Some ''ns1.example.net'')]\<rparr>)),
         (1, DnsReply (DNS\<lparr>an := [Other_RR ''ns1.example.net'' 5,
                                   A_RR ''host.example.net'' ''10.1.1.1'']\<rparr>))]))) ''ns1.example.net''
       = Some (''10.1.1.1'', 2)
   \<and> sent (snd (resolve_iteratively ''example.com'' None 0 10
     (init_world 0
        [(1, DnsReply (DNS\<lparr>ns := [NS_RR ''example.com'' (Some ''ns1.example.net'')]\<rparr>)),
         (1, DnsReply (DNS\<lparr>an := [Other_RR ''ns1.example.net'' 5,
                                   A_RR ''host.example.net'' ''10.1.1.1'']\<rparr>))])))
       = [(ROOT_SERVER_IP, ''example.com''), (ROOT_SERVER_IP, ''ns1.example.net'')]
   \<and> map resolution_mode (log_entries (dns_log (snd (resolve_iteratively ''example.com'' None 0 10
     (init_world 0
        [(1, DnsReply (DNS\<lparr>ns := [NS_RR ''example.com'' (Some ''ns1.example.net'')]\<rparr>)),
         (1, DnsReply (DNS\<lparr>an := [Other_RR ''ns1.example.net'' 5,
                                   A_RR ''host.example.net'' ''10.1.1.1'']\<rparr>))])))))
       = [''Iterative (Resolved)'', ''Iterative (Failed delegation)'']
   \<and> sent (snd (resolve_iteratively ''example.com'' None 0 10
     ((init_world 0
        [(1, DnsReply (DNS\<lparr>ns := [NS_RR ''example.com'' (Some ''ns1.example.net'')]\<rparr>))])
      \<lparr>dns_cache := DnsCache_set Map.empty ''ns1.example.net'' ''10.1.1.1'' 0\<rparr>)))
       = [(ROOT_SERVER_IP, ''example.com''), (''10.1.1.1'', ''example.com'')]"
  by (simp add: run_simps)

subsection \<open>What a failing call leaves in the cache\<close>

lemma add_log_fields [simp]:
  "dns_cache (add_log ts d m s st rr rtt tt cs w) = dns_cache w"
  "sent (add_log ts d m s st rr rtt tt cs w) = sent w"
  "net (add_log ts d m s st rr rtt tt cs w) = net w"
  "clock (add_log ts d m s st rr rtt tt cs w) = clock w"
  by (simp_all add: add_log_def)

lemma sr1_fields [simp]:
  "dns_cache (snd (sr1 ip d w)) = dns_cache w"
  "sent (snd (sr1 ip d w)) = sent w @ [(ip, d)]"
  "dns_log (snd (sr1 ip d w)) = dns_log w"
  by (simp_all add: sr1_def split: list.splits prod.splits)

text \<open>
  The entry of the original domain changes only when a call for that very domain purges it
  in its cache lookup or succeeds: nested calls are never made for the original domain.
\<close>

lemma cache_frame:
  "(fst (resolve_iteratively d od depth md w) = None \<or> d \<noteq> (case od of None \<Rightarrow> d | Some x \<Rightarrow> x))
     \<longrightarrow> dns_cache (snd (resolve_iteratively d od depth md w)) (case od of None \<Rightarrow> d | Some x \<Rightarrow> x)
         = (if md < depth then dns_cache w else snd (DnsCache_get (dns_cache w) d (clock w)))
             (case od of None \<Rightarrow> d | Some x \<Rightarrow> x)"
  "(fst (hop_loop d o' depth t0 hops ip sv w) = None \<or> d \<noteq> o')
     \<longrightarrow> dns_cache (snd (hop_loop d o' depth t0 hops ip sv w)) o' = dns_cache w o'"
proof (induction d od depth md w and d o' depth t0 hops ip sv w rule: resolve_hop_induct)
  case (1 d od depth md w)
  then show ?case by (simp add: resolve_iteratively.simps)
next
  case (2 d od depth md w)
  then show ?case
    by (auto simp: resolve_iteratively.simps Let_def case_prod_beta)
next
  case (3 d o' depth t0 ip sv w)
  then show ?case by (simp add: hop_loop.simps Let_def)
next
  case (4 d o' depth t0 hops ip sv w)
  have nested: "dns_cache (snd (resolve_iteratively name (Some o') (depth + 1) 10 w1)) o'
      = dns_cache w1 o'" if "name \<noteq> o'" for name w1
    using 4(1) [of name w1] that by (auto simp: DnsCache_get_def split: option.splits if_splits)
  show ?case
    using 4(2) nested
    by (auto simp: hop_loop.simps Let_def DnsCache_set_def case_prod_beta
             split: reply.splits list.splits option.splits)
qed

lemma hop_query_failed:
  assumes "net w = [] \<or> (\<exists>dl rest. net w = (dl, NoReply) # rest \<or> net w = (dl, NotDNS) # rest)"
  shows "\<exists>dl rest. hop_loop d o' depth t0 (Suc hops) ip sv w =
           (None, add_log (clock w + dl) d ''Iterative (Query Failed)'' ip (get_step_type ip)
                    ''Timeout or invalid response'' dl None ''MISS''
                    (w\<lparr>clock := clock w + dl, net := rest, sent := sent w @ [(ip, d)]\<rparr>))"
proof -
  from assms consider "net w = []" | dl rest where "net w = (dl, NoReply) # rest"
    | dl rest where "net w = (dl, NotDNS) # rest"
    by blast
  then show ?thesis
  proof cases
    case 1
    then have "hop_loop d o' depth t0 (Suc hops) ip sv w =
           (None, add_log (clock w + 2) d ''Iterative (Query Failed)'' ip (get_step_type ip)
                    ''Timeout or invalid response'' 2 None ''MISS''
                    (w\<lparr>clock := clock w + 2, net := [], sent := sent w @ [(ip, d)]\<rparr>))"
      by (cases w) (simp add: hop_loop.simps sr1_def Let_def)
    then show ?thesis by blast
  next
    case 2
    then have "hop_loop d o' depth t0 (Suc hops) ip sv w =
           (None, add_log (clock w + dl) d ''Iterative (Query Failed)'' ip (get_step_type ip)
                    ''Timeout or invalid response'' dl None ''MISS''
                    (w\<lparr>clock := clock w + dl, net := rest, sent := sent w @ [(ip, d)]\<rparr>))"
      by (simp add: hop_loop.simps sr1_def Let_def)
    then show ?thesis by blast
  next
    case 3
    then have "hop_loop d o' depth t0 (Suc hops) ip sv w =
           (None, add_log (clock w + dl) d ''Iterative (Query Failed)'' ip (get_step_type ip)
                    ''Timeout or invalid response'' dl None ''MISS''
                    (w\<lparr>clock := clock w + dl, net := rest, sent := sent w @ [(ip, d)]\<rparr>))"
      by (simp add: hop_loop.simps sr1_def Let_def)
    then show ?thesis by blast
  qed
qed

text \<open>
  Claim C5, as the code has it. A hop whose query gets no reply, or a reply without a DNS
  layer, logs a Query Failed record and returns failure, and that hop writes nothing into
  the cache. A failing call whose original domain is the queried domain (every call the server
  makes) leaves the cache entry of the queried domain as it was, or removes it when it was
  stale: no entry is written for that domain.
\<close>

theorem failing_call_writes_no_entry:
  "((net w = [] \<or> (\<exists>dl rest. net w = (dl, NoReply) # rest \<or> net w = (dl, NotDNS) # rest)) \<longrightarrow>
       fst (hop_loop d o' depth start (Suc hops) ip sv w) = None
       \<and> dns_cache (snd (hop_loop d o' depth start (Suc hops) ip sv w)) = dns_cache w
       \<and> domain_name (last (log_entries (dns_log (snd (hop_loop d o' depth start (Suc hops) ip sv w))))) = d
       \<and> resolution_mode (last (log_entries (dns_log (snd (hop_loop d o' depth start (Suc hops) ip sv w)))))
           = ''Iterative (Query Failed)'')
   \<and> ((od = None \<or> od = Some d) \<and> fst (resolve_iteratively d od depth md w) = None \<longrightarrow>
        dns_cache (snd (resolve_iteratively d od depth md w)) d = dns_cache w d
        \<or> (dns_cache (snd (resolve_iteratively d od depth md w)) d = None
            \<and> (\<exists>a t. dns_cache w d = Some (a, t) \<and> \<not> clock w - t < 3600)))"
proof (intro conjI impI)
  assume "net w = [] \<or> (\<exists>dl rest. net w = (dl, NoReply) # rest \<or> net w = (dl, NotDNS) # rest)"
  from hop_query_failed [OF this, of d o' depth start hops ip sv]
  obtain dl rest where eq: "hop_loop d o' depth start (Suc hops) ip sv w =
           (None, add_log (clock w + dl) d ''Iterative (Query Failed)'' ip (get_step_type ip)
                    ''Timeout or invalid response'' dl None ''MISS''
                    (w\<lparr>clock := clock w + dl, net := rest, sent := sent w @ [(ip, d)]\<rparr>))"
    by blast
  show "fst (hop_loop d o' depth start (Suc hops) ip sv w) = None"
    "dns_cache (snd (hop_loop d o' depth start (Suc hops) ip sv w)) = dns_cache w"
    "domain_name (last (log_entries (dns_log (snd (hop_loop d o' depth start (Suc hops) ip sv w))))) = d"
    "resolution_mode (last (log_entries (dns_log (snd (hop_loop d o' depth start (Suc hops) ip sv w)))))
           = ''Iterative (Query Failed)''"
    unfolding eq by (simp_all add: add_log_def log_step_def)
next
  assume a: "(od = None \<or> od = Some d) \<and> fst (resolve_iteratively d od depth md w) = None"
  then have o: "(case od of None \<Rightarrow> d | Some x \<Rightarrow> x) = d" by auto
  from a cache_frame(1) [of d od depth md w]
  have "dns_cache (snd (resolve_iteratively d od depth md w)) d
         = (if md < depth then dns_cache w else snd (DnsCache_get (dns_cache w) d (clock w))) d"
    unfolding o by simp
  then show "dns_cache (snd (resolve_iteratively d od depth md w)) d = dns_cache w d
        \<or> (dns_cache (snd (resolve_iteratively d od depth md w)) d = None
            \<and> (\<exists>a t. dns_cache w d = Some (a, t) \<and> \<not> clock w - t < 3600))"
    by (auto simp: DnsCache_get_def CACHE_TTL_SECONDS_def split: if_splits option.splits)
qed

theorem failing_call_writes_no_entry_witness:
  "fst (resolve_iteratively ''example.com'' None 0 10
     ((init_world 4000 [])\<lparr>dns_cache := DnsCache_set Map.empty ''example.com'' ''93.184.216.34'' 0\<rparr>))
     = None
   \<and> dns_cache (snd (resolve_iteratively ''example.com'' None 0 10
     ((init_world 4000 [])\<lparr>dns_cache := DnsCache_set Map.empty ''example.com'' ''93.184.216.34'' 0\<rparr>)))
       ''example.com'' = None
   \<and> fst (hop_loop ''example.com'' ''example.com'' 0 0 (Suc 9) ROOT_SERVER_IP 0
       (init_world 0 [(2, NoReply)])) = None
   \<and> dns_cache (snd (hop_loop ''example.com'' ''example.com'' 0 0 (Suc 9) ROOT_SERVER_IP 0
       (init_world 0 [(2, NoReply)]))) = Map.empty"
proof -
  let ?w = "(init_world 4000 [])\<lparr>dns_cache := DnsCache_set Map.empty ''example.com'' ''93.184.216.34'' 0\<rparr>"
  have fails: "fst (resolve_iteratively ''example.com'' None 0 10 ?w) = None"
    by (simp add: run_simps)
  have stale: "dns_cache ?w ''example.com'' = Some (''93.184.216.34'', 0)" "clock ?w = 4000"
    by (simp_all add: init_world_def DnsCache_set_def)
  have a: "dns_cache (snd (resolve_iteratively ''example.com'' None 0 10 ?w)) ''example.com''
             = dns_cache ?w ''example.com''
          \<or> (dns_cache (snd (resolve_iteratively ''example.com'' None 0 10 ?w)) ''example.com'' = None
             \<and> (\<exists>a t. dns_cache ?w ''example.com'' = Some (a, t) \<and> \<not> clock ?w - t < 3600))"
    by (rule failing_call_writes_no_entry [where w = ?w and d = "''example.com''" and od = None
          and depth = 0 and md = 10, THEN conjunct2, rule_format]) (simp add: fails)
  have net: "net (init_world 0 [(2, NoReply)]) = [] \<or> (\<exists>dl rest. net (init_world 0 [(2, NoReply)]) = (dl, NoReply) # rest
               \<or> net (init_world 0 [(2, NoReply)]) = (dl, NotDNS) # rest)"
    by (simp add: init_world_def)
  note b = failing_call_writes_no_entry [where w = "init_world 0 [(2, NoReply)]" and d = "''example.com''"
      and o' = "''example.com''" and depth = 0 and start = 0 and hops = 9 and ip = ROOT_SERVER_IP and sv = 0,
      THEN conjunct1, rule_format, OF net]
  from a stale have "dns_cache (snd (resolve_iteratively ''example.com'' None 0 10 ?w)) ''example.com''
       = Some (''93.184.216.34'', 0)
     \<or> dns_cache (snd (resolve_iteratively ''example.com'' None 0 10 ?w)) ''example.com'' = None"
    by auto
  moreover have "dns_cache (snd (resolve_iteratively ''example.com'' None 0 10 ?w)) ''example.com''
       \<noteq> Some (''93.184.216.34'', 0)"
    by (simp add: run_simps)
  ultimately have "dns_cache (snd (resolve_iteratively ''example.com'' None 0 10 ?w)) ''example.com'' = None"
    by blast
  moreover from b have "fst (hop_loop ''example.com'' ''example.com'' 0 0 (Suc 9) ROOT_SERVER_IP 0 (init_world 0 [(2, NoReply)])) = None
       \<and> dns_cache (snd (hop_loop ''example.com'' ''example.com'' 0 0 (Suc 9) ROOT_SERVER_IP 0
             (init_world 0 [(2, NoReply)]))) = Map.empty"
    by (simp add: init_world_def)
  ultimately show ?thesis using fails by simp
qed

text \<open>
  Claim C5 as stated fails in three ways. A stale entry of the queried domain is purged by
  the cache lookup before the query times out, so the cache does change for that domain. A
  resolution that fails after a nested name-server resolution succeeded has written the
  name server's entry. And a nested call can fail although a call nested inside it, for the
  same name, succeeded and cached that name.
\<close>

theorem failing_call_cache_change_counterexample:
  "fst (resolve_iteratively ''example.com'' None 0 10
     ((init_world 4000 [])\<lparr>dns_cache := DnsCache_set Map.empty ''example.com'' ''93.184.216.34'' 0\<rparr>))
     = None
   \<and> dns_cache (snd (resolve_iteratively ''example.com'' None 0 10
     ((init_world 4000 [])\<lparr>dns_cache := DnsCache_set Map.empty ''example.com'' ''93.184.216.34'' 0\<rparr>)))
       ''example.com'' = None
   \<and> dns_cache ((init_world 4000 [])\<lparr>dns_cache := DnsCache_set Map.empty ''example.com'' ''93.184.216.34'' 0\<rparr>)
       ''example.com'' = Some (''93.184.216.34'', 0)
   \<and> fst (resolve_iteratively ''example.com'' None 0 10
     (init_world 0
        [(1, DnsReply (DNS\<lparr>ns := [NS_RR ''example.com'' (Some ''ns1.example.net'')]\<rparr>)),
         (1, DnsReply (DNS\<lparr>an := [A_RR ''ns1.example.net'' ''10.1.1.1'']\<rparr>)),
         (2, NoReply)])) = None
   \<and> dns_cache (snd (resolve_iteratively ''example.com'' None 0 10
     (init_world 0
        [(1, DnsReply (DNS\<lparr>ns := [NS_RR ''example.com'' (Some ''ns1.example.net'')]\<rparr>)),
         (1, DnsReply (DNS\<lparr>an := [A_RR ''ns1.example.net'' ''10.1.1.1'']\<rparr>)),
         (2, NoReply)]))) ''ns1.example.net'' = Some (''10.1.1.1'', 2)
   \<and> fst (resolve_iteratively ''ns1.example.net'' (Some ''example.com'') 1 10
     (init_world 0
        [(1, DnsReply (DNS\<lparr>ns := [NS_RR ''example.net'' (Some ''ns2.example.org'')]\<rparr>)),
         (1, DnsReply (DNS\<lparr>ns := [NS_RR ''example.org'' (Some ''ns1.example.net'')]\<rparr>)),
         (1, DnsReply (DNS\<lparr>an := [A_RR ''ns1.example.net'' ''10.1.1.1'']\<rparr>)),
         (1, DnsReply (DNS\<lparr>an := [A_RR ''ns2.example.org'' ''10.2.2.2'']\<rparr>)),
         (2, NoReply)])) = None
   \<and> dns_cache (snd (resolve_iteratively ''ns1.example.net'' (Some ''example.com'') 1 10
     (init_world 0
        [(1, DnsReply (DNS\<lparr>ns := [NS_RR ''example.net'' (Some ''ns2.example.org'')]\<rparr>)),
         (1, DnsReply (DNS\<lparr>ns := [NS_RR ''example.org'' (Some ''ns1.example.net'')]\<rparr>)),
         (1, DnsReply (DNS\<lparr>an := [A_RR ''ns1.example.net'' ''10.1.1.1'']\<rparr>)),
         (1, DnsReply (DNS\<lparr>an := [A_RR ''ns2.example.org'' ''10.2.2.2'']\<rparr>)),
         (2, NoReply)]))) ''ns1.example.net'' = Some (''10.1.1.1'', 3)"
  by (simp add: run_simps)

subsection \<open>Bounded work\<close>

lemma work_nested:
  "(if 10 < depth + 1 then 0 else 10 * (1 + work (10 - (depth + 1)))) \<le> work (10 - depth)"
proof (cases "10 < depth + 1")
  case True
  then show ?thesis by simp
next
  case False
  then have "10 - depth = Suc (10 - (depth + 1))" by simp
  then show ?thesis using False by simp
qed

lemma query_bound:
  "length (sent (snd (resolve_iteratively d od depth md w)))
     \<le> length (sent w) + (if md < depth then 0 else md * (1 + work (10 - depth)))"
  "length (sent (snd (hop_loop d o' depth t0 hops ip sv w)))
     \<le> length (sent w) + hops * (1 + work (10 - depth))"
proof (induction d od depth md w and d o' depth t0 hops ip sv w rule: resolve_hop_induct)
  case (1 d od depth md w)
  then show ?case by (simp add: resolve_iteratively.simps)
next
  case (2 d od depth md w)
  from 2(1) 2(2) [of "case od of None \<Rightarrow> d | Some x \<Rightarrow> x" "clock w"
       "w\<lparr>dns_cache := snd (DnsCache_get (dns_cache w) d (clock w))\<rparr>"]
  show ?case
    by (auto simp: resolve_iteratively.simps Let_def case_prod_beta)
next
  case (3 d o' depth t0 ip sv w)
  then show ?case by (simp add: hop_loop.simps Let_def)
next
  case (4 d o' depth t0 hops ip sv w)
  define B where "B = 1 + work (10 - depth)"
  have loop: "length (sent (snd (hop_loop d o' depth t0 hops ip' sv' w1))) \<le> n"
    if "length (sent w1) + hops * B \<le> n" for ip' sv' w1 n
    using 4(2) [of ip' sv' w1] that unfolding B_def by simp
  have nested: "length (sent (snd (resolve_iteratively name (Some o') (depth + 1) 10 w1))) + c \<le> n"
    if "length (sent w1) + work (10 - depth) + c \<le> n" for name w1 c n
    using 4(1) [of name w1] work_nested [of depth] that by simp
  have B: "1 \<le> B" "work (10 - depth) + 1 = B" by (simp_all add: B_def)
  have goal: "length (sent (snd (hop_loop d o' depth t0 (Suc hops) ip sv w)))
     \<le> length (sent w) + (B + hops * B)"
  proof (cases "fst (sr1 ip d w)")
    case (DnsReply resp)
    show ?thesis
    proof (cases "a_rdatas (an resp)")
      case (Cons a as)
      with DnsReply B show ?thesis
        by (simp add: hop_loop.simps Let_def case_prod_beta)
    next
      case Nil
      note noA = Nil
      show ?thesis
      proof (cases "ns_names_of (ns resp)")
        case Nil
        with DnsReply noA B show ?thesis
          by (simp add: hop_loop.simps Let_def case_prod_beta)
      next
        case (Cons name names)
        show ?thesis
        proof (cases "truthy (glue_ip_of (ar resp))")
          case True
          with DnsReply noA Cons B show ?thesis
            by (simp add: hop_loop.simps Let_def case_prod_beta) (rule loop, simp)
        next
          case False
          note noglue = False
          show ?thesis
          proof (cases "name = o'")
            case True
            with DnsReply noA Cons noglue B show ?thesis
              by (simp add: hop_loop.simps Let_def case_prod_beta)
          next
            case False
            let ?r = "resolve_iteratively name (Some o') (depth + 1) 10 (snd (sr1 ip d w))"
            have n0: "length (sent (snd ?r)) + 0 \<le> length (sent w) + B"
              by (rule nested) (simp add: B(2) [symmetric])
            have n1: "length (sent (snd ?r)) + hops * B \<le> length (sent w) + (B + hops * B)"
              by (rule nested) (simp add: B(2) [symmetric])
            show ?thesis
            proof (cases "ns_ip_of (fst ?r)")
              case None
              with DnsReply noA Cons noglue False n0 show ?thesis
                by (simp add: hop_loop.simps Let_def case_prod_beta)
            next
              case (Some next_ip)
              with DnsReply noA Cons noglue False show ?thesis
                by (simp add: hop_loop.simps Let_def case_prod_beta) (rule loop, simp add: n1 [simplified])
            qed
          qed
        qed
      qed
    qed
  qed (use B in \<open>simp_all add: hop_loop.simps Let_def case_prod_beta\<close>)
  then show ?case by (simp add: B_def)
qed

lemma hop_loop_exhausted:
  assumes "list_all (\<lambda>x. glue_referral (snd x)) chain"
    and "net w = map (\<lambda>x. (fst x, DnsReply (snd x))) chain @ rest"
    and "length chain = hops"
  shows "fst (hop_loop d o' depth t0 hops ip sv w) = None
       \<and> net (snd (hop_loop d o' depth t0 hops ip sv w)) = rest
       \<and> length (sent (snd (hop_loop d o' depth t0 hops ip sv w))) = length (sent w) + hops
       \<and> resolution_mode (last (log_entries (dns_log (snd (hop_loop d o' depth t0 hops ip sv w)))))
           = ''Iterative (Failed)''
       \<and> response_or_referral (last (log_entries (dns_log (snd (hop_loop d o' depth t0 hops ip sv w)))))
           = ''Iteration limit reached''"
  using assms
proof (induction chain arbitrary: hops ip sv w)
  case Nil
  then show ?case by (simp add: hop_loop.simps Let_def add_log_def log_step_def)
next
  case (Cons x chain)
  then obtain h where h: "hops = Suc h" "length chain = h" by (cases hops) auto
  from Cons.prems(1) have ref: "glue_referral (snd x)"
    and refs: "list_all (\<lambda>x. glue_referral (snd x)) chain"
    by simp_all
  from ref obtain n ns' g where r: "a_rdatas (an (snd x)) = []" "ns_names_of (ns (snd x)) = n # ns'"
    "glue_ip_of (ar (snd x)) = Some g" "g \<noteq> []"
    by (rule glue_referralE)
  let ?rest1 = "map (\<lambda>x. (fst x, DnsReply (snd x))) chain @ rest"
  from Cons.prems(2) have net: "net w = (fst x, DnsReply (snd x)) # ?rest1" by simp
  define w1 where "w1 = add_log (clock w + fst x) d ''Iterative (Delegation)'' ip (get_step_type ip)
                (''Delegation to: '' @ join '', '' (n # ns') @ '' @ Glue IP: '' @ g)
                (fst x) None ''MISS''
                (w\<lparr>clock := clock w + fst x, net := ?rest1, sent := sent w @ [(ip, d)]\<rparr>)"
  have step: "hop_loop d o' depth t0 hops ip sv w = hop_loop d o' depth t0 h g (Suc sv) w1"
    unfolding h w1_def by (rule hop_glue [OF net r])
  have w1: "net w1 = ?rest1" "length (sent w1) = Suc (length (sent w))"
    by (simp_all add: w1_def)
  from Cons.IH [OF refs w1(1) h(2), of g "Suc sv"] w1(2) h(1)
  show ?case unfolding step by simp
qed

lemma work_numeral: "work (numeral k) = 10 * (1 + work (pred_numeral k))"
  by (simp add: numeral_eq_Suc)

text \<open>
  Claim C7. The resolver is a total function: its definition was accepted with a measure
  that decreases at every call (the depth budget, then the hops that are left). A call with
  \<open>depth > max_depth\<close> returns failure at once and changes nothing. The number of queries a
  call sends is bounded by a number that depends on \<open>max_depth\<close> and the depth alone, whatever
  the replies are: a hop loop with \<open>hops\<close> hops left sends at most \<open>hops\<close> times one query
  and what one nested resolution one level deeper can send. A loop with no hop left fails
  with the record Iteration limit reached, and that is how a chain of \<open>hops\<close> referrals with
  glue ends, after exactly \<open>hops\<close> queries.
\<close>

theorem resolve_bounded:
  "(md < depth \<longrightarrow> resolve_iteratively d od depth md w = (None, w))
   \<and> length (sent (snd (resolve_iteratively d od depth md w)))
        \<le> length (sent w) + md * (1 + work (10 - depth))
   \<and> length (sent (snd (hop_loop d o' depth start hops ip sv w)))
        \<le> length (sent w) + hops * (1 + work (10 - depth))
   \<and> hop_loop d o' depth start 0 ip sv w =
        (None, add_log (clock w) d ''Iterative (Failed)'' ip (get_step_type ip)
                 ''Iteration limit reached'' 0 (Some (clock w - start)) ''MISS'' w)
   \<and> (list_all (\<lambda>x. glue_referral (snd x)) chain
        \<and> net w = map (\<lambda>x. (fst x, DnsReply (snd x))) chain @ rest
        \<and> length chain = hops \<longrightarrow>
          fst (hop_loop d o' depth start hops ip sv w) = None
          \<and> length (sent (snd (hop_loop d o' depth start hops ip sv w))) = length (sent w) + hops
          \<and> response_or_referral
                (last (log_entries (dns_log (snd (hop_loop d o' depth start hops ip sv w)))))
              = ''Iteration limit reached'')"
proof -
  have "length (sent (snd (resolve_iteratively d od depth md w)))
        \<le> length (sent w) + md * (1 + work (10 - depth))"
    using query_bound(1) [of d od depth md w] by (simp split: if_splits)
  moreover have "hop_loop d o' depth start 0 ip sv w =
        (None, add_log (clock w) d ''Iterative (Failed)'' ip (get_step_type ip)
                 ''Iteration limit reached'' 0 (Some (clock w - start)) ''MISS'' w)"
    by (simp add: hop_loop.simps Let_def)
  moreover have "md < depth \<longrightarrow> resolve_iteratively d od depth md w = (None, w)"
    by (simp add: resolve_iteratively.simps)
  moreover have "length (sent (snd (hop_loop d o' depth start hops ip sv w)))
        \<le> length (sent w) + hops * (1 + work (10 - depth))"
    by (rule query_bound(2))
  moreover have "list_all (\<lambda>x. glue_referral (snd x)) chain
        \<and> net w = map (\<lambda>x. (fst x, DnsReply (snd x))) chain @ rest
        \<and> length chain = hops \<longrightarrow>
          fst (hop_loop d o' depth start hops ip sv w) = None
          \<and> length (sent (snd (hop_loop d o' depth start hops ip sv w))) = length (sent w) + hops
          \<and> response_or_referral
                (last (log_entries (dns_log (snd (hop_loop d o' depth start hops ip sv w)))))
              = ''Iteration limit reached''"
  proof
    assume h: "list_all (\<lambda>x. glue_referral (snd x)) chain
        \<and> net w = map (\<lambda>x. (fst x, DnsReply (snd x))) chain @ rest
        \<and> length chain = hops"
    then have h1: "list_all (\<lambda>x. glue_referral (snd x)) chain"
      and h2: "net w = map (\<lambda>x. (fst x, DnsReply (snd x))) chain @ rest"
      and h3: "length chain = hops"
      by (rule conjunct1, rule conjunct2 [THEN conjunct1], rule conjunct2 [THEN conjunct2])
    from hop_loop_exhausted [OF h1 h2 h3, of d o' depth start ip sv]
    show "fst (hop_loop d o' depth start hops ip sv w) = None
          \<and> length (sent (snd (hop_loop d o' depth start hops ip sv w))) = length (sent w) + hops
          \<and> response_or_referral
                (last (log_entries (dns_log (snd (hop_loop d o' depth start hops ip sv w)))))
              = ''Iteration limit reached''"
      by (elim conjE) (intro conjI)
  qed
  ultimately show ?thesis
    by (intro conjI)
qed

theorem resolve_bounded_witness:
  "resolve_iteratively ''ns.example.net'' (Some ''example.com'') 11 10 (init_world 0 [(1, NotDNS)])
     = (None, init_world 0 [(1, NotDNS)])
   \<and> length (sent (snd (resolve_iteratively ''example.com'' None 0 10 (init_world 0 []))))
       \<le> 111111111110
   \<and> fst (hop_loop ''example.com'' ''example.com'' 0 0 1 ROOT_SERVER_IP 0
       (init_world 0 [(1, DnsReply (DNS\<lparr>ns := [NS_RR ''com'' (Some ''a.gtld-servers.net'')],
                                      ar := [A_RR ''a.gtld-servers.net'' ''192.5.6.30'']\<rparr>))])) = None
   \<and> response_or_referral (last (log_entries (dns_log (snd
       (hop_loop ''example.com'' ''example.com'' 0 0 1 ROOT_SERVER_IP 0
       (init_world 0 [(1, DnsReply (DNS\<lparr>ns := [NS_RR ''com'' (Some ''a.gtld-servers.net'')],
                                      ar := [A_RR ''a.gtld-servers.net'' ''192.5.6.30'']\<rparr>))]))))))
       = ''Iteration limit reached''"
proof -
  let ?ref = "DNS\<lparr>ns := [NS_RR ''com'' (Some ''a.gtld-servers.net'')],
                   ar := [A_RR ''a.gtld-servers.net'' ''192.5.6.30'']\<rparr>"
  have a: "resolve_iteratively ''ns.example.net'' (Some ''example.com'') 11 10 (init_world 0 [(1, NotDNS)])
     = (None, init_world 0 [(1, NotDNS)])"
    by (rule resolve_bounded [where md = 10 and depth = 11, THEN conjunct1, rule_format]) simp
  have w10: "work 10 = 11111111110"
    by (simp add: work_numeral)
  have b: "length (sent (snd (resolve_iteratively ''example.com'' None 0 10 (init_world 0 []))))
       \<le> 111111111110"
    using resolve_bounded [where md = 10 and depth = 0 and d = "''example.com''" and od = None
        and w = "init_world 0 []", THEN conjunct2, THEN conjunct1]
    by (simp add: w10 init_world_def)
  have hyp: "list_all (\<lambda>x. glue_referral (snd x)) [(1::real, ?ref)]
        \<and> net (init_world 0 [(1, DnsReply ?ref)]) = map (\<lambda>x. (fst x, DnsReply (snd x))) [(1::real, ?ref)] @ []
        \<and> length [(1::real, ?ref)] = 1"
    by (simp add: glue_referral_def DNS_def truthy_def init_world_def)
  note c = resolve_bounded [where w = "init_world 0 [(1, DnsReply ?ref)]" and chain = "[(1, ?ref)]"
      and rest = "[]" and hops = 1 and d = "''example.com''" and o' = "''example.com''" and depth = 0
      and start = 0 and ip = ROOT_SERVER_IP and sv = 0,
      THEN conjunct2, THEN conjunct2, THEN conjunct2, THEN conjunct2, rule_format, OF hyp]
  from a b c show ?thesis by (elim conjE) (intro conjI)
qed

subsection \<open>The plot registry under resolution\<close>

lemma registry_ok_log_step [simp]:
  "registry_ok (log_step ts d m s st rr rtt tt cs l) = registry_ok l"
  by (simp add: registry_ok_def log_step_def)

lemma plot_data_log_step [simp]:
  "plot_data (log_step ts d m s st rr rtt tt cs l) = plot_data l"
  by (simp add: log_step_def)

lemma registry_ok_record:
  "registry_ok l \<Longrightarrow> registry_ok (record_plot_data d n t l)"
  by (auto simp: registry_ok_def record_plot_data_def)

lemma prefix_record:
  "prefix xs (plot_data l) \<Longrightarrow> prefix xs (plot_data (record_plot_data d n t l))"
  by (auto simp: record_plot_data_def intro: prefix_order.order_trans)

lemma dns_log_add_log [simp]:
  "dns_log (add_log ts d m s st rr rtt tt cs w) = log_step ts d m s st rr rtt tt cs (dns_log w)"
  by (simp add: add_log_def)

text \<open>A resolution changes the registry only through \<^verbatim>\<open>record_plot_data\<close>.\<close>

lemma resolve_keeps_registry:
  "registry_ok (dns_log w) \<longrightarrow> registry_ok (dns_log (snd (resolve_iteratively d od depth md w)))"
  "registry_ok (dns_log w) \<longrightarrow> registry_ok (dns_log (snd (hop_loop d o' depth t0 hops ip sv w)))"
proof (induction d od depth md w and d o' depth t0 hops ip sv w rule: resolve_hop_induct)
  case (1 d od depth md w)
  then show ?case by (simp add: resolve_iteratively.simps)
next
  case (2 d od depth md w)
  have loop: "registry_ok (dns_log (snd (hop_loop d x depth y md ROOT_SERVER_IP 0 z)))"
    if "registry_ok (dns_log z)" for x y z
    using 2(2) that by blast
  show ?case
    by (auto simp: resolve_iteratively.simps Let_def case_prod_beta intro!: loop registry_ok_record)
next
  case (3 d o' depth t0 ip sv w)
  then show ?case by (simp add: hop_loop.simps Let_def)
next
  case (4 d o' depth t0 hops ip sv w)
  have loop: "registry_ok (dns_log (snd (hop_loop d o' depth t0 hops ip' sv' w1)))"
    if "registry_ok (dns_log w1)" for ip' sv' w1
    using 4(2) that by blast
  have nested: "registry_ok (dns_log (snd (resolve_iteratively name (Some o') (Suc depth) 10 w1)))"
    if "registry_ok (dns_log w1)" for name w1
    using 4(1) that unfolding Suc_eq_plus1 by blast
  show ?case
    by (auto simp: hop_loop.simps Let_def case_prod_beta
             split: reply.splits list.splits option.splits
             intro!: loop nested registry_ok_record)
qed

lemma resolve_keeps_entries:
  "prefix xs (plot_data (dns_log w))
     \<longrightarrow> prefix xs (plot_data (dns_log (snd (resolve_iteratively d od depth md w))))"
  "prefix xs (plot_data (dns_log w))
     \<longrightarrow> prefix xs (plot_data (dns_log (snd (hop_loop d o' depth t0 hops ip sv w))))"
proof (induction d od depth md w and d o' depth t0 hops ip sv w rule: resolve_hop_induct)
  case (1 d od depth md w)
  then show ?case by (simp add: resolve_iteratively.simps)
next
  case (2 d od depth md w)
  have loop: "prefix xs (plot_data (dns_log (snd (hop_loop d x depth y md ROOT_SERVER_IP 0 z))))"
    if "prefix xs (plot_data (dns_log z))" for x y z
    using 2(2) that by blast
  show ?case
    by (auto simp: resolve_iteratively.simps Let_def case_prod_beta intro!: loop prefix_record)
next
  case (3 d o' depth t0 ip sv w)
  then show ?case by (simp add: hop_loop.simps Let_def)
next
  case (4 d o' depth t0 hops ip sv w)
  have loop: "prefix xs (plot_data (dns_log (snd (hop_loop d o' depth t0 hops ip' sv' w1))))"
    if "prefix xs (plot_data (dns_log w1))" for ip' sv' w1
    using 4(2) that by blast
  have nested: "prefix xs (plot_data (dns_log (snd (resolve_iteratively name (Some o') (Suc depth) 10 w1))))"
    if "prefix xs (plot_data (dns_log w1))" for name w1
    using 4(1) that unfolding Suc_eq_plus1 by blast
  show ?case
    by (auto simp: hop_loop.simps Let_def case_prod_beta
             split: reply.splits list.splits option.splits
             intro!: loop nested prefix_record)
qed


text \<open>
  Claim C8. \<^verbatim>\<open>record_plot_data\<close> registers a datum only when the domain is not yet registered
  and fewer than 10 domains are; otherwise it changes nothing. After any run of calls the
  registry holds at most 10 distinct domains, every call extends it at its end or leaves it as
  it is (nothing is evicted, reordered or rewritten), a full registry ignores every call,
  and the datum of a registered domain is the one of the first call made for that domain;
  every later call for it, with whatever counts, is ignored. A resolution, cache hit or not,
  changes the registry only through \<^verbatim>\<open>record_plot_data\<close>: it keeps the registry well formed
  and keeps every entry present before it, in place and unchanged.
\<close>

theorem plot_registry_first_come:
  "(let l = record_all calls in
     record_plot_data d n t l =
       (if d \<notin> fst ` set (plot_data l) \<and> length (plot_data l) < 10
        then l\<lparr>unique_domains_resolved_count := unique_domains_resolved_count l + 1,
               plot_data := plot_data l @ [(d, \<lparr>total_servers_visited = n, total_latency = t\<rparr>)]\<rparr>
        else l)
     \<and> length (plot_data l) \<le> 10
     \<and> distinct (map fst (plot_data l))
     \<and> prefix (plot_data l) (plot_data (record_plot_data d n t l))
     \<and> (length (plot_data l) = 10 \<longrightarrow> record_plot_data d n t l = l)
     \<and> (\<forall>v. map_of (plot_data l) d = Some v \<longrightarrow>
           record_plot_data d n t l = l
           \<and> (\<exists>n0 t0. find (\<lambda>c. fst c = d) calls = Some (d, n0, t0)
                 \<and> v = \<lparr>total_servers_visited = n0, total_latency = t0\<rparr>)))
   \<and> registry_ok (record_all calls)
   \<and> (registry_ok (dns_log w) \<longrightarrow>
         registry_ok (dns_log (snd (resolve_iteratively name od depth md w)))
         \<and> prefix (plot_data (dns_log w))
               (plot_data (dns_log (snd (resolve_iteratively name od depth md w)))))"
proof -
  let ?l = "record_all calls"
  have inv: "unique_domains_resolved_count ?l = length (plot_data ?l)"
            "max_domains_for_plot ?l = 10" "length (plot_data ?l) \<le> 10"
            "distinct (map fst (plot_data ?l))"
    using record_all_inv [of calls] by simp_all
  have step: "record_plot_data d n t ?l =
       (if d \<notin> fst ` set (plot_data ?l) \<and> length (plot_data ?l) < 10
        then ?l\<lparr>unique_domains_resolved_count := unique_domains_resolved_count ?l + 1,
               plot_data := plot_data ?l @ [(d, \<lparr>total_servers_visited = n, total_latency = t\<rparr>)]\<rparr>
        else ?l)"
    by (simp add: record_plot_data_def inv)
  have pre: "prefix (plot_data ?l) (plot_data (record_plot_data d n t ?l))"
    by (simp add: record_plot_data_def)
  have full: "length (plot_data ?l) = 10 \<longrightarrow> record_plot_data d n t ?l = ?l"
    by (simp add: step)
  have known: "\<forall>v. map_of (plot_data ?l) d = Some v \<longrightarrow>
           record_plot_data d n t ?l = ?l
           \<and> (\<exists>n0 t0. find (\<lambda>c. fst c = d) calls = Some (d, n0, t0)
                 \<and> v = \<lparr>total_servers_visited = n0, total_latency = t0\<rparr>)"
  proof (intro allI impI conjI)
    fix v assume v: "map_of (plot_data ?l) d = Some v"
    then have "d \<in> fst ` set (plot_data ?l)"
      by (metis domI dom_map_of_conv_image_fst)
    then show "record_plot_data d n t ?l = ?l" by (simp add: record_plot_data_def)
    from record_all_first [OF v]
    show "\<exists>n0 t0. find (\<lambda>c. fst c = d) calls = Some (d, n0, t0)
                 \<and> v = \<lparr>total_servers_visited = n0, total_latency = t0\<rparr>" .
  qed
  have runs: "let l = record_all calls in
     record_plot_data d n t l =
       (if d \<notin> fst ` set (plot_data l) \<and> length (plot_data l) < 10
        then l\<lparr>unique_domains_resolved_count := unique_domains_resolved_count l + 1,
               plot_data := plot_data l @ [(d, \<lparr>total_servers_visited = n, total_latency = t\<rparr>)]\<rparr>
        else l)
     \<and> length (plot_data l) \<le> 10
     \<and> distinct (map fst (plot_data l))
     \<and> prefix (plot_data l) (plot_data (record_plot_data d n t l))
     \<and> (length (plot_data l) = 10 \<longrightarrow> record_plot_data d n t l = l)
     \<and> (\<forall>v. map_of (plot_data l) d = Some v \<longrightarrow>
           record_plot_data d n t l = l
           \<and> (\<exists>n0 t0. find (\<lambda>c. fst c = d) calls = Some (d, n0, t0)
                 \<and> v = \<lparr>total_servers_visited = n0, total_latency = t0\<rparr>))"
    unfolding Let_def using step inv(3,4) pre full known by blast
  have ok: "registry_ok (record_all calls)"
    using inv by (simp add: registry_ok_def)
  have res: "registry_ok (dns_log w) \<longrightarrow>
         registry_ok (dns_log (snd (resolve_iteratively name od depth md w)))
         \<and> prefix (plot_data (dns_log w))
               (plot_data (dns_log (snd (resolve_iteratively name od depth md w))))"
    using resolve_keeps_registry(1) [of w name od depth md]
      resolve_keeps_entries(1) [of "plot_data (dns_log w)" w name od depth md]
    by simp
  from runs ok res show ?thesis by (intro conjI)
qed

theorem plot_registry_first_come_witness:
  "map_of (plot_data (record_all [(''a.com'', 3, 1), (''b.org'', 2, 4), (''a.com'', 1, 0)])) ''a.com''
     = Some \<lparr>total_servers_visited = 3, total_latency = 1\<rparr>
   \<and> record_plot_data ''a.com'' 1 0 (record_all [(''a.com'', 3, 1), (''b.org'', 2, 4), (''a.com'', 1, 0)])
     = record_all [(''a.com'', 3, 1), (''b.org'', 2, 4), (''a.com'', 1, 0)]
   \<and> length (plot_data (record_all [(''a.com'', 3, 1), (''b.org'', 2, 4), (''a.com'', 1, 0)])) \<le> 10
   \<and> registry_ok (dns_log (init_world 0 []))
   \<and> registry_ok (dns_log (snd (resolve_iteratively ''example.com'' None 0 10 (init_world 0 []))))"
proof -
  let ?cs = "[(''a.com'', 3::nat, 1::real), (''b.org'', 2, 4), (''a.com'', 1, 0)]"
  have reg: "map_of (plot_data (record_all ?cs)) ''a.com''
     = Some \<lparr>total_servers_visited = 3, total_latency = 1\<rparr>"
    by (simp add: record_all_def record_plot_data_def DnsLog_init_def)
  from plot_registry_first_come [where calls = ?cs and d = "''a.com''" and n = 1 and t = 0,
      THEN conjunct1]
  have *: "length (plot_data (record_all ?cs)) \<le> 10"
    and **: "\<forall>v. map_of (plot_data (record_all ?cs)) ''a.com'' = Some v \<longrightarrow>
           record_plot_data ''a.com'' 1 0 (record_all ?cs) = record_all ?cs
           \<and> (\<exists>n0 t0. find (\<lambda>c. fst c = ''a.com'') ?cs = Some (''a.com'', n0, t0)
                 \<and> v = \<lparr>total_servers_visited = n0, total_latency = t0\<rparr>)"
    unfolding Let_def by blast+
  from ** reg have same: "record_plot_data ''a.com'' 1 0 (record_all ?cs) = record_all ?cs" by blast
  have ok: "registry_ok (dns_log (init_world 0 []))"
    by (simp add: init_world_def DnsLog_init_def registry_ok_def)
  from plot_registry_first_come [where w = "init_world 0 []" and name = "''example.com''"
      and od = None and depth = 0 and md = 10, THEN conjunct2, THEN conjunct2, rule_format, OF ok]
  have "registry_ok (dns_log (snd (resolve_iteratively ''example.com'' None 0 10 (init_world 0 []))))"
    by (rule conjunct1)
  with reg * same ok show ?thesis by (intro conjI)
qed

end
